theory Spec2Isabelle
  imports Complex_Main "HOL-Library.Stream" "HOL-Library.Word"
begin

unbundle bit_operations_syntax

section \<open>neuraforge: the animation core and the application shell\<close>

text \<open>
  A shallow embedding of \<^verbatim>\<open>effects.py\<close>, \<^verbatim>\<open>credits.py\<close>, \<^verbatim>\<open>utils.py\<close> and the parts of
  \<^verbatim>\<open>app.py\<close> that drive them. Conventions:
  \<^item> Python \<^verbatim>\<open>float\<close> is idealised as \<^typ>\<open>real\<close>; Python \<^verbatim>\<open>int\<close> is \<^typ>\<open>int\<close>.
  \<^item> An exception is a value of \<open>py_error\<close>; a function that can raise returns
    \<open>py_error + result\<close> with \<open>Inl\<close> for the exception.
  \<^item> Objects mutated in place become records that are passed in and returned.
  \<^item> The Tk canvas is a separate value threaded through the calls, since the particle
    field and the glow pulse of the application draw on one and the same canvas.
\<close>

datatype py_error = ValueError | ZeroDivisionError | IndexError | OverflowError | TclError

subsection \<open>\<^verbatim>\<open>utils.py\<close>\<close>

definition clamp :: "real \<Rightarrow> real \<Rightarrow> real \<Rightarrow> real" where
  "clamp x lo hi = (if x < lo then lo else if x > hi then hi else x)"


subsection \<open>The random generator\<close>

text \<open>
  \<^verbatim>\<open>random.Random\<close> is the standard library's Mersenne Twister. Its state is modelled as
  the stream of the raw answers it is going to give, one element per call.
  \<^verbatim>\<open>random()\<close> returns a multiple of \<open>2\<^sup>-\<^sup>5\<^sup>3\<close> in \<open>[0, 1)\<close>; \<^verbatim>\<open>randrange(0, n)\<close> returns an
  integer in \<open>[0, n)\<close> and raises \<^verbatim>\<open>ValueError\<close> on an empty range.
\<close>

type_synonym rng = "nat stream"

definition rng_random :: "rng \<Rightarrow> real \<times> rng" where
  "rng_random g = (real (shd g mod 2 ^ 53) / 2 ^ 53, stl g)"

definition rng_randrange :: "rng \<Rightarrow> int \<Rightarrow> py_error + (int \<times> rng)" where
  "rng_randrange g n =
     (if n \<le> 0 then Inl ValueError else Inr (int (shd g) mod n, stl g))"

subsection \<open>The Tk canvas\<close>

text \<open>
  A live canvas: its size as \<^verbatim>\<open>winfo_width()\<close> and \<^verbatim>\<open>winfo_height()\<close> report it, and its
  items. Tk numbers the items of a canvas 1, 2, 3, ... in the order of their creation and
  never uses a number twice, so the items are kept in a list whose position \<open>i - 1\<close>
  holds item \<open>i\<close>, or \<open>None\<close> once the item is deleted. An operation on an identifier
  that names no item does nothing, as in Tk.
\<close>

record 'a canvas =
  winfo_width :: int
  winfo_height :: int
  items :: "'a option list"

definition canvas_item :: "'a canvas \<Rightarrow> int \<Rightarrow> 'a option" where
  "canvas_item c i =
     (if 1 \<le> i \<and> i \<le> int (length (items c)) then items c ! nat (i - 1) else None)"

definition canvas_create :: "'a \<Rightarrow> 'a canvas \<Rightarrow> int \<times> 'a canvas" where
  "canvas_create it c = (int (length (items c)) + 1, c\<lparr>items := items c @ [Some it]\<rparr>)"

definition canvas_update :: "int \<Rightarrow> ('a \<Rightarrow> 'a) \<Rightarrow> 'a canvas \<Rightarrow> 'a canvas" where
  "canvas_update i f c =
     (case canvas_item c i of
        None \<Rightarrow> c
      | Some it \<Rightarrow> c\<lparr>items := (items c)[nat (i - 1) := Some (f it)]\<rparr>)"

definition canvas_delete :: "int \<Rightarrow> 'a canvas \<Rightarrow> 'a canvas" where
  "canvas_delete i c =
     (if 1 \<le> i \<and> i \<le> int (length (items c))
      then c\<lparr>items := (items c)[nat (i - 1) := None]\<rparr> else c)"

text \<open>The canvas of the two effects carries ovals only.\<close>

record oval =
  bbox :: "real \<times> real \<times> real \<times> real"
  fill :: string
  outline :: string
  outline_width :: real

definition canvas_coords :: "int \<Rightarrow> real \<times> real \<times> real \<times> real \<Rightarrow> oval canvas \<Rightarrow> oval canvas" where
  "canvas_coords i b c = canvas_update i (\<lambda>it. it\<lparr>bbox := b\<rparr>) c"

subsection \<open>\<^verbatim>\<open>effects.py\<close>: the particle field\<close>

record particle =
  px :: real
  py :: real
  vx :: real
  vy :: real
  pr :: real
  alpha :: real
  hue_idx :: int
  item :: int

record particle_field =
  palette :: "string list"
  pf_rng :: rng
  particles :: "particle list"
  boost_pending :: int
  count :: int

text \<open>\<^verbatim>\<open>boost\<close>: \<^verbatim>\<open>self._boost += max(0, amt)\<close>.\<close>

definition boost :: "int \<Rightarrow> particle_field \<Rightarrow> particle_field" where
  "boost amt pf = pf\<lparr>boost_pending := boost_pending pf + max 0 amt\<rparr>"

text \<open>One round of the loop of \<^verbatim>\<open>_spawn\<close>: six draws, the palette index, the new particle.\<close>

definition spawn_one ::
  "int \<Rightarrow> int \<Rightarrow> string list \<Rightarrow> rng \<Rightarrow> py_error + (particle \<times> rng)" where
  "spawn_one w h pal g0 =
     (let (u1, g1) = rng_random g0;
          (u2, g2) = rng_random g1;
          (u3, g3) = rng_random g2;
          (u4, g4) = rng_random g3;
          (u5, g5) = rng_random g4;
          (u6, g6) = rng_random g5
      in case rng_randrange g6 (int (length pal)) of
           Inl e \<Rightarrow> Inl e
         | Inr (idx, g7) \<Rightarrow>
             Inr (\<lparr>px = u1 * real_of_int w, py = u2 * real_of_int h,
                   vx = (u5 - 0.5) * 0.9, vy = (u6 - 0.5) * 0.6,
                   pr = 1.2 + u4 * 2.6, alpha = 0.25 + u3 * 0.75,
                   hue_idx = idx, item = - 1\<rparr>, g7))"

fun spawn_loop ::
  "nat \<Rightarrow> int \<Rightarrow> int \<Rightarrow> string list \<Rightarrow> rng \<Rightarrow> particle list
     \<Rightarrow> py_error + (rng \<times> particle list)" where
  "spawn_loop 0 w h pal g ps = Inr (g, ps)"
| "spawn_loop (Suc n) w h pal g ps =
     (case spawn_one w h pal g of
        Inl e \<Rightarrow> Inl e
      | Inr (p, g') \<Rightarrow> spawn_loop n w h pal g' (ps @ [p]))"

text \<open>\<^verbatim>\<open>_spawn(n)\<close>; \<^verbatim>\<open>range(n)\<close> is empty for \<open>n \<le> 0\<close>.\<close>

definition spawn :: "int \<Rightarrow> oval canvas \<Rightarrow> particle_field \<Rightarrow> py_error + particle_field" where
  "spawn n c pf =
     (let w = max 1 (winfo_width c); h = max 1 (winfo_height c)
      in case spawn_loop (nat n) w h (palette pf) (pf_rng pf) (particles pf) of
           Inl e \<Rightarrow> Inl e
         | Inr (g, ps) \<Rightarrow> Inr (pf\<lparr>pf_rng := g, particles := ps\<rparr>))"

text \<open>\<^verbatim>\<open>__init__\<close>: the generator seeded with 1337 is the stream \<open>g\<close>.\<close>

definition particle_field_init ::
  "oval canvas \<Rightarrow> string list \<Rightarrow> rng \<Rightarrow> py_error + particle_field" where
  "particle_field_init c pal g =
     spawn 42 c \<lparr>palette = pal, pf_rng = g, particles = [], boost_pending = 0, count = 0\<rparr>"

text \<open>The body of the first loop of \<^verbatim>\<open>step\<close>, for one particle.\<close>

definition move :: "int \<Rightarrow> int \<Rightarrow> particle \<Rightarrow> rng \<Rightarrow> particle \<times> rng" where
  "move w h p g0 =
     (let x1 = px p + vx p;
          y1 = py p + vy p;
          (u1, g1) = rng_random g0;
          (u2, g2) = rng_random g1;
          vx1 = clamp (vx p + (u1 - 0.5) * 0.02) (- 1.2) 1.2;
          vy1 = clamp (vy p + (u2 - 0.5) * 0.02) (- 0.9) 0.9;
          (vx2, x2) = (if x1 < 0 \<or> x1 > real_of_int w
                       then (vx1 * (- 0.9), clamp x1 0 (real_of_int w)) else (vx1, x1));
          (vy2, y2) = (if y1 < 0 \<or> y1 > real_of_int h
                       then (vy1 * (- 0.9), clamp y1 0 (real_of_int h)) else (vy1, y1));
          (u3, g3) = rng_random g2;
          a = clamp (alpha p + (u3 - 0.45) * 0.03) 0.18 1.0
      in (p\<lparr>px := x2, py := y2, vx := vx2, vy := vy2, alpha := a\<rparr>, g3))"

fun move_all :: "int \<Rightarrow> int \<Rightarrow> particle list \<Rightarrow> rng \<Rightarrow> particle list \<times> rng" where
  "move_all w h [] g = ([], g)"
| "move_all w h (p # ps) g =
     (let (p', g') = move w h p g; (ps', g'') = move_all w h ps g' in (p' # ps', g''))"

text \<open>The body of the loop of \<^verbatim>\<open>_render\<close>, for one particle.\<close>

definition render_one ::
  "string list \<Rightarrow> particle \<Rightarrow> oval canvas \<times> rng
     \<Rightarrow> py_error + (particle \<times> oval canvas \<times> rng)" where
  "render_one pal p cg =
     (let (c, g) = cg in
      if pal = [] then Inl ZeroDivisionError
      else
        let col = pal ! nat (hue_idx p mod int (length pal));
            b = (px p - pr p, py p - pr p, px p + pr p, py p + pr p)
        in if item p = - 1
           then (let (i, c') = canvas_create
                       \<lparr>bbox = b, fill = col, outline = '''', outline_width = 1\<rparr> c
                 in Inr (p\<lparr>item := i\<rparr>, c', g))
           else
             let c1 = canvas_coords (item p) b c in
             if alpha p > 0.9
             then (let (u, g') = rng_random g in
                   if u < 0.05
                   then (let hue' = (hue_idx p + 1) mod int (length pal);
                             col' = pal ! nat hue'
                         in Inr (p\<lparr>hue_idx := hue'\<rparr>,
                                 canvas_update (item p) (\<lambda>it. it\<lparr>fill := col'\<rparr>) c1, g'))
                   else Inr (p, canvas_update (item p) (\<lambda>it. it\<lparr>fill := col\<rparr>) c1, g'))
             else Inr (p, canvas_update (item p) (\<lambda>it. it\<lparr>fill := col\<rparr>) c1, g))"

fun render_all ::
  "string list \<Rightarrow> particle list \<Rightarrow> oval canvas \<times> rng
     \<Rightarrow> py_error + (particle list \<times> oval canvas \<times> rng)" where
  "render_all pal [] cg = Inr ([], cg)"
| "render_all pal (p # ps) cg =
     (case render_one pal p cg of
        Inl e \<Rightarrow> Inl e
      | Inr (p', cg') \<Rightarrow>
          (case render_all pal ps cg' of
             Inl e \<Rightarrow> Inl e
           | Inr (ps', cg'') \<Rightarrow> Inr (p' # ps', cg'')))"

text \<open>
  The eviction loop of \<^verbatim>\<open>step\<close>: \<open>k\<close> rounds of \<^verbatim>\<open>pop(0)\<close>, each deleting the visual of the
  particle it removed. \<^verbatim>\<open>pop\<close> on an empty list raises \<^verbatim>\<open>IndexError\<close>. On a live canvas
  \<^verbatim>\<open>delete\<close> does not raise, so the \<^verbatim>\<open>try\<close> around it has nothing to swallow.
\<close>

fun evict :: "nat \<Rightarrow> particle list \<Rightarrow> oval canvas \<Rightarrow> py_error + (particle list \<times> oval canvas)" where
  "evict 0 ps c = Inr (ps, c)"
| "evict (Suc k) [] c = Inl IndexError"
| "evict (Suc k) (old # ps) c =
     evict k ps (if item old \<noteq> - 1 then canvas_delete (item old) c else c)"

text \<open>
  \<^verbatim>\<open>step\<close> up to and including \<^verbatim>\<open>self.count = len(self.particles)\<close>: the boost drain, the
  motion of every particle, the rendering, the count.
\<close>

definition step_advance ::
  "oval canvas \<Rightarrow> particle_field \<Rightarrow> py_error + (oval canvas \<times> particle_field)" where
  "step_advance c pf =
     (let w = max 1 (winfo_width c); h = max 1 (winfo_height c)
      in case (if boost_pending pf > 0
               then (let add = min 8 (boost_pending pf)
                     in spawn add c (pf\<lparr>boost_pending := boost_pending pf - add\<rparr>))
               else Inr pf) of
           Inl e \<Rightarrow> Inl e
         | Inr pf1 \<Rightarrow>
             (let (ps2, g2) = move_all w h (particles pf1) (pf_rng pf1)
              in case render_all (palette pf1) ps2 (c, g2) of
                   Inl e \<Rightarrow> Inl e
                 | Inr (ps3, c3, g3) \<Rightarrow>
                     Inr (c3, pf1\<lparr>pf_rng := g3, particles := ps3,
                                   count := int (length ps3)\<rparr>)))"

text \<open>The rest of \<^verbatim>\<open>step\<close>: the cap of 160.\<close>

definition step_cap ::
  "oval canvas \<Rightarrow> particle_field \<Rightarrow> py_error + (oval canvas \<times> particle_field)" where
  "step_cap c pf =
     (if length (particles pf) > 160
      then (case evict (length (particles pf) - 160) (particles pf) c of
              Inl e \<Rightarrow> Inl e
            | Inr (ps, c') \<Rightarrow> Inr (c', pf\<lparr>particles := ps\<rparr>))
      else Inr (c, pf))"

definition step ::
  "oval canvas \<Rightarrow> particle_field \<Rightarrow> py_error + (oval canvas \<times> particle_field)" where
  "step c pf =
     (case step_advance c pf of
        Inl e \<Rightarrow> Inl e
      | Inr (c1, pf1) \<Rightarrow> step_cap c1 pf1)"

text \<open>
  The number of particles the boost drain of the next \<^verbatim>\<open>step\<close> adds: the value of \<^verbatim>\<open>add\<close>,
  or 0 when no boost is pending.
\<close>

definition drained :: "particle_field \<Rightarrow> int" where
  "drained pf = (if boost_pending pf > 0 then min 8 (boost_pending pf) else 0)"

text \<open>The bounds of the three \<^verbatim>\<open>clamp\<close> calls of \<^verbatim>\<open>step\<close>.\<close>

definition in_bounds :: "particle \<Rightarrow> bool" where
  "in_bounds p \<longleftrightarrow> 0.18 \<le> alpha p \<and> alpha p \<le> 1.0 \<and> - 1.2 \<le> vx p \<and> vx p \<le> 1.2
                    \<and> - 0.9 \<le> vy p \<and> vy p \<le> 0.9"

text \<open>
  What happens to a particle field during its life: a frame calls \<^verbatim>\<open>step\<close>, the Run Demo
  action calls \<^verbatim>\<open>boost\<close>, and between two calls the canvas may change under it (the
  window is resized, the glow pulse draws on the same canvas).
\<close>

datatype field_event = Step | Boost int | Canvas_changed "oval canvas \<Rightarrow> oval canvas"

fun run_field ::
  "field_event list \<Rightarrow> oval canvas \<times> particle_field
     \<Rightarrow> py_error + (oval canvas \<times> particle_field)" where
  "run_field [] s = Inr s"
| "run_field (Step # es) (c, pf) =
     (case step c pf of Inl e \<Rightarrow> Inl e | Inr s' \<Rightarrow> run_field es s')"
| "run_field (Boost amt # es) (c, pf) = run_field es (c, boost amt pf)"
| "run_field (Canvas_changed f # es) (c, pf) = run_field es (f c, pf)"

subsection \<open>\<^verbatim>\<open>effects.py\<close>: the glow pulse\<close>

record pulse =
  cx :: real
  cy :: real
  ring_r :: real
  vr :: real
  life :: real
  ring_item :: int

record glow_pulse =
  glow_palette :: "string list"
  glow_rng :: rng
  pulses :: "pulse list"
  kick_pending :: real

text \<open>\<^verbatim>\<open>kick\<close>: \<^verbatim>\<open>self._kick = max(self._kick, strength)\<close>.\<close>

definition kick :: "real \<Rightarrow> glow_pulse \<Rightarrow> glow_pulse" where
  "kick strength gp = gp\<lparr>kick_pending := max (kick_pending gp) strength\<rparr>"

text \<open>\<^verbatim>\<open>__init__\<close>: the generator seeded with 2024 is the stream \<open>g\<close>.\<close>

definition glow_pulse_init :: "string list \<Rightarrow> rng \<Rightarrow> glow_pulse" where
  "glow_pulse_init pal g =
     kick 0.35 \<lparr>glow_palette = pal, glow_rng = g, pulses = [], kick_pending = 0\<rparr>"

text \<open>\<^verbatim>\<open>GlowPulse._spawn(w, h, strength)\<close>.\<close>

definition glow_spawn :: "int \<Rightarrow> int \<Rightarrow> real \<Rightarrow> glow_pulse \<Rightarrow> glow_pulse" where
  "glow_spawn w h strength gp =
     (let (u1, g1) = rng_random (glow_rng gp);
          (u2, g2) = rng_random g1;
          (u3, g3) = rng_random g2;
          p = \<lparr>cx = real_of_int w * (0.22 + u1 * 0.56),
               cy = real_of_int h * (0.28 + u2 * 0.44),
               ring_r = 6 + u3 * 22,
               vr = 1.6 + strength * 3.2,
               life = 0.65 + strength * 0.8,
               ring_item = - 1\<rparr>
      in gp\<lparr>glow_rng := g3, pulses := pulses gp @ [p]\<rparr>)"

text \<open>The loop of \<^verbatim>\<open>step\<close> that grows every ring and keeps those still alive.\<close>

fun grow_alive :: "pulse list \<Rightarrow> pulse list" where
  "grow_alive [] = []"
| "grow_alive (p # ps) =
     (let p' = p\<lparr>ring_r := ring_r p + vr p, life := life p - 0.02\<rparr>
      in if life p' > 0 then p' # grow_alive ps else grow_alive ps)"

text \<open>\<^verbatim>\<open>GlowPulse._render\<close>, from position \<open>i\<close> of the enumeration on.\<close>

fun glow_render ::
  "nat \<Rightarrow> string list \<Rightarrow> pulse list \<Rightarrow> oval canvas \<Rightarrow> py_error + (pulse list \<times> oval canvas)" where
  "glow_render i pal [] c = Inr ([], c)"
| "glow_render i pal (p # ps) c =
     (if pal = [] then Inl ZeroDivisionError
      else
        let col = pal ! (i mod length pal);
            b = (cx p - ring_r p, cy p - ring_r p, cx p + ring_r p, cy p + ring_r p);
            (p', c') =
               (if ring_item p = - 1
                then (let (j, c1) = canvas_create
                            \<lparr>bbox = b, fill = '''', outline = col, outline_width = 2\<rparr> c
                      in (p\<lparr>ring_item := j\<rparr>, c1))
                else (p, canvas_update (ring_item p) (\<lambda>it. it\<lparr>outline := col\<rparr>)
                           (canvas_coords (ring_item p) b c)))
        in case glow_render (Suc i) pal ps c' of
             Inl e \<Rightarrow> Inl e
           | Inr (ps', c'') \<Rightarrow> Inr (p' # ps', c''))"

text \<open>The loop over \<^verbatim>\<open>self.pulses[:-8]\<close> that deletes the visuals of the rings to drop.\<close>

fun delete_visuals :: "pulse list \<Rightarrow> oval canvas \<Rightarrow> oval canvas" where
  "delete_visuals [] c = c"
| "delete_visuals (extra # ps) c =
     delete_visuals ps (if ring_item extra \<noteq> - 1 then canvas_delete (ring_item extra) c else c)"

text \<open>
  \<^verbatim>\<open>GlowPulse.step\<close> up to and including \<^verbatim>\<open>self._render()\<close>. The first condition draws a
  random number only when a kick is pending (\<^verbatim>\<open>and\<close> evaluates its right side only then),
  and the \<^verbatim>\<open>elif\<close> draws one whenever the first condition failed.
\<close>

definition glow_advance ::
  "oval canvas \<Rightarrow> glow_pulse \<Rightarrow> py_error + (oval canvas \<times> glow_pulse)" where
  "glow_advance c gp =
     (let w = max 1 (winfo_width c); h = max 1 (winfo_height c);
          (fire, g1) = (if kick_pending gp > 0
                        then (let (u, g) = rng_random (glow_rng gp) in (u < 0.20, g))
                        else (False, glow_rng gp));
          gp1 = (if fire
                 then (let gp' = glow_spawn w h (kick_pending gp) (gp\<lparr>glow_rng := g1\<rparr>)
                       in gp'\<lparr>kick_pending := kick_pending gp' * 0.85\<rparr>)
                 else (let (u', g2) = rng_random g1
                       in if u' < 0.01 then glow_spawn w h 0.22 (gp\<lparr>glow_rng := g2\<rparr>)
                          else gp\<lparr>glow_rng := g2\<rparr>));
          alive = grow_alive (pulses gp1)
      in case glow_render 0 (glow_palette gp1) alive c of
           Inl e \<Rightarrow> Inl e
         | Inr (ps, c') \<Rightarrow> Inr (c', gp1\<lparr>pulses := ps\<rparr>))"

text \<open>
  The rest of \<^verbatim>\<open>GlowPulse.step\<close>: the cap of 8. \<^verbatim>\<open>xs[:-8]\<close> is all but the last eight
  elements and \<^verbatim>\<open>xs[-8:]\<close> the last eight.
\<close>

definition glow_cap :: "oval canvas \<Rightarrow> glow_pulse \<Rightarrow> oval canvas \<times> glow_pulse" where
  "glow_cap c gp =
     (if length (pulses gp) > 8
      then (delete_visuals (take (length (pulses gp) - 8) (pulses gp)) c,
            gp\<lparr>pulses := drop (length (pulses gp) - 8) (pulses gp)\<rparr>)
      else (c, gp))"

definition glow_step ::
  "oval canvas \<Rightarrow> glow_pulse \<Rightarrow> py_error + (oval canvas \<times> glow_pulse)" where
  "glow_step c gp =
     (case glow_advance c gp of
        Inl e \<Rightarrow> Inl e
      | Inr (c1, gp1) \<Rightarrow> Inr (glow_cap c1 gp1))"

datatype glow_event = Glow_step | Kick real | Glow_canvas_changed "oval canvas \<Rightarrow> oval canvas"

fun run_glow ::
  "glow_event list \<Rightarrow> oval canvas \<times> glow_pulse \<Rightarrow> py_error + (oval canvas \<times> glow_pulse)" where
  "run_glow [] s = Inr s"
| "run_glow (Glow_step # es) (c, gp) =
     (case glow_step c gp of Inl e \<Rightarrow> Inl e | Inr s' \<Rightarrow> run_glow es s')"
| "run_glow (Kick strength # es) (c, gp) = run_glow es (c, kick strength gp)"
| "run_glow (Glow_canvas_changed f # es) (c, gp) = run_glow es (f c, gp)"

subsection \<open>Tk timers\<close>

text \<open>
  \<^verbatim>\<open>after(ms, callback)\<close> registers a one-shot timer and returns its identifier;
  \<^verbatim>\<open>after_cancel(id)\<close> removes it. The callbacks registered by the application are its two
  closures \<^verbatim>\<open>tick\<close> and \<^verbatim>\<open>frame\<close>; the credits overlay registers its \<^verbatim>\<open>_loop\<close>.
  A timer is kept as its identifier, its delay in
  milliseconds and its callback.
\<close>

datatype callback = Tick | Frame | Credits_loop

record timers =
  pending :: "(nat \<times> int \<times> callback) list"
  issued :: nat

definition tk_after :: "int \<Rightarrow> callback \<Rightarrow> timers \<Rightarrow> nat \<times> timers" where
  "tk_after ms cb tm =
     (Suc (issued tm),
      tm\<lparr>pending := pending tm @ [(Suc (issued tm), ms, cb)], issued := Suc (issued tm)\<rparr>)"

definition tk_after_cancel :: "nat \<Rightarrow> timers \<Rightarrow> timers" where
  "tk_after_cancel j tm = tm\<lparr>pending := filter (\<lambda>t. fst t \<noteq> j) (pending tm)\<rparr>"

subsection \<open>\<^verbatim>\<open>app.py\<close>: the application shell\<close>

record app_state =
  start_time :: real
  runs :: int
  pulses_shown :: int
  particles_shown :: int
  bytes_processed :: int
  last_action :: string

text \<open>
  The text of a stat card is kept as the formatter that produced it and the value it was
  given: \<^verbatim>\<open>fmt_uptime(up)\<close>, \<^verbatim>\<open>str(n)\<close>, \<^verbatim>\<open>fmt_bytes(n)\<close>. A line of the activity log is kept
  the same way, as the message and the values formatted into it.
\<close>

datatype card_text = Uptime_text real | Int_text int | Bytes_text int

datatype log_line =
  Version_banner | Environment_banner | Ready | Run_demo_starting | Workload_done int int

text \<open>
  The application object, with the attributes that the actions below read or write. The
  widgets that only decorate the window are left out.
\<close>

record app =
  state :: app_state
  app_canvas :: "oval canvas"
  field :: particle_field
  glow :: glow_pulse
  console :: "log_line list"
  card_uptime :: card_text
  card_runs :: card_text
  card_particles :: card_text
  card_bytes :: card_text
  tick_job :: "nat option"
  fx_job :: "nat option"
  tk :: timers

text \<open>\<^verbatim>\<open>int(x)\<close> of a float truncates towards zero.\<close>

definition py_int :: "real \<Rightarrow> int" where
  "py_int x = (if x \<ge> 0 then \<lfloor>x\<rfloor> else \<lceil>x\<rceil>)"

text \<open>\<^verbatim>\<open>_sync_stats\<close>; \<open>now\<close> is the reading of \<^verbatim>\<open>time.time()\<close>.\<close>

definition sync_stats :: "real \<Rightarrow> app \<Rightarrow> app" where
  "sync_stats now a =
     (let up = now - start_time (state a)
      in a\<lparr>card_uptime := Uptime_text up,
           card_runs := Int_text (runs (state a)),
           card_particles := Int_text (count (field a)),
           card_bytes := Bytes_text (bytes_processed (state a))\<rparr>)"




text \<open>\<^verbatim>\<open>_schedule_ticks\<close> and its closure \<^verbatim>\<open>tick\<close>.\<close>

definition tick :: "real \<Rightarrow> app \<Rightarrow> app" where
  "tick now a =
     (let a1 = sync_stats now a;
          (j, tm) = tk_after 250 Tick (tk a1)
      in a1\<lparr>tick_job := Some j, tk := tm\<rparr>)"

definition schedule_ticks :: "app \<Rightarrow> app" where
  "schedule_ticks a =
     (let tm1 = (case tick_job a of None \<Rightarrow> tk a | Some j \<Rightarrow> tk_after_cancel j (tk a));
          (j, tm2) = tk_after 250 Tick tm1
      in a\<lparr>tick_job := Some j, tk := tm2\<rparr>)"

text \<open>\<^verbatim>\<open>_schedule_fx\<close> and its closure \<^verbatim>\<open>frame\<close>.\<close>

definition frame :: "app \<Rightarrow> py_error + app" where
  "frame a =
     (case step (app_canvas a) (field a) of
        Inl e \<Rightarrow> Inl e
      | Inr (c1, pf) \<Rightarrow>
          (case glow_step c1 (glow a) of
             Inl e \<Rightarrow> Inl e
           | Inr (c2, gp) \<Rightarrow>
               (let (j, tm) = tk_after 16 Frame (tk a)
                in Inr (a\<lparr>app_canvas := c2, field := pf, glow := gp,
                          fx_job := Some j, tk := tm\<rparr>))))"

definition schedule_fx :: "app \<Rightarrow> app" where
  "schedule_fx a =
     (let tm1 = (case fx_job a of None \<Rightarrow> tk a | Some j \<Rightarrow> tk_after_cancel j (tk a));
          (j, tm2) = tk_after 16 Frame tm1
      in a\<lparr>fx_job := Some j, tk := tm2\<rparr>)"

text \<open>
  \<^verbatim>\<open>NeuraForgeApp.__init__\<close>: \<open>now\<close> is the reading of \<^verbatim>\<open>time.time()\<close>, \<open>c\<close> the canvas as
  created, \<open>g1\<close> and \<open>g2\<close> the generators seeded with 1337 and 2024.
\<close>

definition app_init ::
  "real \<Rightarrow> oval canvas \<Rightarrow> string list \<Rightarrow> string list \<Rightarrow> rng \<Rightarrow> rng \<Rightarrow> py_error + app" where
  "app_init now c particle_pal pulse_pal g1 g2 =
     (case particle_field_init c particle_pal g1 of
        Inl e \<Rightarrow> Inl e
      | Inr pf \<Rightarrow>
          Inr ((schedule_fx (schedule_ticks
            \<lparr>state = \<lparr>start_time = now, runs = 0, pulses_shown = 0, particles_shown = 0,
                      bytes_processed = 0, last_action = ''idle''\<rparr>,
             app_canvas = c, field = pf, glow = glow_pulse_init pulse_pal g2, console = [],
             card_uptime = Uptime_text 0, card_runs = Int_text 0,
             card_particles = Int_text 0, card_bytes = Bytes_text 0,
             tick_job = None, fx_job = None,
             tk = \<lparr>pending = [], issued = 0\<rparr>\<rparr>))
               \<lparr>console := [Version_banner, Environment_banner, Ready]\<rparr>))"

text \<open>The delays of the pending timers that will call \<^verbatim>\<open>tick\<close>.\<close>

definition tick_delays :: "app \<Rightarrow> int list" where
  "tick_delays a = map (\<lambda>t. fst (snd t)) (filter (\<lambda>t. snd (snd t) = Tick) (pending (tk a)))"

subsection \<open>Python strings\<close>

text \<open>
  The text of the credits holds characters outside ASCII, so a Python \<^verbatim>\<open>str\<close> is the list
  of its code points. \<^verbatim>\<open>str.strip()\<close> removes the characters for which \<^verbatim>\<open>str.isspace\<close>
  holds from both ends. Colours are ASCII strings and stay \<^typ>\<open>string\<close>.
\<close>

type_synonym ustr = "nat list"

definition ascii :: "string \<Rightarrow> ustr" where
  "ascii s = map of_char s"

definition py_isspace :: "nat \<Rightarrow> bool" where
  "py_isspace n \<longleftrightarrow>
     (9 \<le> n \<and> n \<le> 13) \<or> (28 \<le> n \<and> n \<le> 32) \<or> n = 133 \<or> n = 160 \<or> n = 5760
     \<or> (8192 \<le> n \<and> n \<le> 8202) \<or> n = 8232 \<or> n = 8233 \<or> n = 8239 \<or> n = 8287
     \<or> n = 12288"

definition py_strip :: "ustr \<Rightarrow> ustr" where
  "py_strip s = rev (dropWhile py_isspace (rev (dropWhile py_isspace s)))"

subsection \<open>The canvas of the credits overlay\<close>

text \<open>
  The overlay draws text items and rectangles. An item carries its coordinates (two
  numbers for a text, four for a rectangle), its text, its fill colour and its tags.
  The font of a text and the stacking order, which only \<^verbatim>\<open>tag_lower\<close> changes and nothing
  reads, are not kept.
\<close>

datatype item_kind = Text_item | Rectangle_item

record scene_item =
  kind :: item_kind
  coords :: "real list"
  item_text :: ustr
  item_fill :: string
  tags :: "string list"

text \<open>\<^verbatim>\<open>delete(tag)\<close>; the tag \<^verbatim>\<open>"all"\<close> names every item.\<close>

definition canvas_delete_tag :: "string \<Rightarrow> scene_item canvas \<Rightarrow> scene_item canvas" where
  "canvas_delete_tag tg c =
     c\<lparr>items := map (\<lambda>slot. case slot of
                               None \<Rightarrow> None
                             | Some it \<Rightarrow> if tg = ''all'' \<or> tg \<in> set (tags it) then None
                                          else Some it) (items c)\<rparr>"

definition create_text ::
  "real \<Rightarrow> real \<Rightarrow> ustr \<Rightarrow> string \<Rightarrow> scene_item canvas \<Rightarrow> int \<times> scene_item canvas" where
  "create_text x y txt col c =
     canvas_create \<lparr>kind = Text_item, coords = [x, y], item_text = txt, item_fill = col, tags = []\<rparr> c"

definition create_rectangle ::
  "real \<Rightarrow> real \<Rightarrow> real \<Rightarrow> real \<Rightarrow> string \<Rightarrow> string
     \<Rightarrow> scene_item canvas \<Rightarrow> int \<times> scene_item canvas" where
  "create_rectangle x0 y0 x1 y1 col tg c =
     canvas_create \<lparr>kind = Rectangle_item, coords = [x0, y0, x1, y1], item_text = [],
                    item_fill = col, tags = [tg]\<rparr> c"

text \<open>
  \<^verbatim>\<open>coords(id, x, y)\<close>: sets the position; Tk refuses two coordinates for a rectangle.
\<close>

definition coords_set ::
  "int \<Rightarrow> real \<Rightarrow> real \<Rightarrow> scene_item canvas \<Rightarrow> py_error + scene_item canvas" where
  "coords_set i x y c =
     (case canvas_item c i of
        None \<Rightarrow> Inr c
      | Some it \<Rightarrow> if kind it = Text_item
                   then Inr (canvas_update i (\<lambda>it. it\<lparr>coords := [x, y]\<rparr>) c)
                   else Inl TclError)"

text \<open>\<^verbatim>\<open>coords(id)\<close>: the coordinates, the empty list when there is no such item.\<close>

definition coords_get :: "int \<Rightarrow> scene_item canvas \<Rightarrow> real list" where
  "coords_get i c = (case canvas_item c i of None \<Rightarrow> [] | Some it \<Rightarrow> coords it)"

text \<open>
  \<^verbatim>\<open>itemcget(id, "text")\<close>: the empty string when there is no such item; a rectangle has no
  text option.
\<close>

definition itemcget_text :: "int \<Rightarrow> scene_item canvas \<Rightarrow> py_error + ustr" where
  "itemcget_text i c =
     (case canvas_item c i of
        None \<Rightarrow> Inr []
      | Some it \<Rightarrow> if kind it = Text_item then Inr (item_text it) else Inl TclError)"

definition itemconfigure_text ::
  "int \<Rightarrow> ustr \<Rightarrow> scene_item canvas \<Rightarrow> py_error + scene_item canvas" where
  "itemconfigure_text i txt c =
     (case canvas_item c i of
        None \<Rightarrow> Inr c
      | Some it \<Rightarrow> if kind it = Text_item
                   then Inr (canvas_update i (\<lambda>it. it\<lparr>item_text := txt\<rparr>) c)
                   else Inl TclError)"

definition itemconfigure_fill :: "int \<Rightarrow> string \<Rightarrow> scene_item canvas \<Rightarrow> scene_item canvas" where
  "itemconfigure_fill i col c = canvas_update i (\<lambda>it. it\<lparr>item_fill := col\<rparr>) c"

subsection \<open>\<^verbatim>\<open>credits.py\<close>: colours\<close>

definition hex_value :: "char \<Rightarrow> int option" where
  "hex_value ch =
     (let n = int (of_char ch :: nat) in
      if 48 \<le> n \<and> n \<le> 57 then Some (n - 48)
      else if 97 \<le> n \<and> n \<le> 102 then Some (n - 87)
      else if 65 \<le> n \<and> n \<le> 70 then Some (n - 55)
      else None)"

text \<open>
  The white space that \<^verbatim>\<open>int(s, 16)\<close> skips around the number: the ASCII white space, 9
  to 13 and 32, and the white space outside ASCII, which among one-byte characters is 133
  and 160. The separators 28 to 31, which \<^verbatim>\<open>str.strip\<close> removes, are not skipped: with one
  of them in the string \<^verbatim>\<open>int\<close> raises \<^verbatim>\<open>ValueError\<close>.
\<close>

definition int_space :: "char \<Rightarrow> bool" where
  "int_space ch \<longleftrightarrow>
     (let n = (of_char ch :: nat) in (9 \<le> n \<and> n \<le> 13) \<or> n = 32 \<or> n = 133 \<or> n = 160)"

text \<open>
  \<^verbatim>\<open>int(s, 16)\<close> for a string of at most two characters, which is all \<^verbatim>\<open>_mix_hex\<close> passes:
  white space around the number is skipped, one sign may precede one digit, and anything
  else raises \<^verbatim>\<open>ValueError\<close>.
\<close>

definition py_int16 :: "string \<Rightarrow> py_error + int" where
  "py_int16 s =
     (let s' = rev (dropWhile int_space (rev (dropWhile int_space s)))
      in case s' of
           [d] \<Rightarrow> (case hex_value d of Some v \<Rightarrow> Inr v | None \<Rightarrow> Inl ValueError)
         | [a, d] \<Rightarrow>
             (case hex_value d of
                None \<Rightarrow> Inl ValueError
              | Some v \<Rightarrow>
                  if a = CHR ''+'' then Inr v
                  else if a = CHR ''-'' then Inr (- v)
                  else (case hex_value a of Some u \<Rightarrow> Inr (16 * u + v) | None \<Rightarrow> Inl ValueError))
         | _ \<Rightarrow> Inl ValueError)"

definition hex_digit :: "int \<Rightarrow> char" where
  "hex_digit d = ''0123456789abcdef'' ! nat d"

function hex_digits :: "int \<Rightarrow> string" where
  "hex_digits n = (if n < 16 then [hex_digit n] else hex_digits (n div 16) @ [hex_digit (n mod 16)])"
  by pat_completeness auto
termination
  by (relation "measure nat") auto

text \<open>The format \<^verbatim>\<open>{n:02x}\<close>: lower-case hexadecimal, padded with zeros to two characters.\<close>

definition format_02x :: "int \<Rightarrow> string" where
  "format_02x n =
     (if n < 0 then CHR ''-'' # hex_digits (- n)
      else if n < 16 then CHR ''0'' # hex_digits n
      else hex_digits n)"

text \<open>
  One unpacking line of \<^verbatim>\<open>_mix_hex\<close>:
  \<^verbatim>\<open>int(a[1:3], 16), int(a[3:5], 16), int(a[5:7], 16)\<close>; \<^verbatim>\<open>a[1:3]\<close> is \<open>take 2 (drop 1 a)\<close>.
\<close>

definition hex_triple :: "string \<Rightarrow> py_error + (int \<times> int \<times> int)" where
  "hex_triple a =
     (case py_int16 (take 2 (drop 1 a)) of
        Inl e \<Rightarrow> Inl e
      | Inr r \<Rightarrow>
          (case py_int16 (take 2 (drop 3 a)) of
             Inl e \<Rightarrow> Inl e
           | Inr g \<Rightarrow>
               (case py_int16 (take 2 (drop 5 a)) of
                  Inl e \<Rightarrow> Inl e
                | Inr b \<Rightarrow> Inr (r, g, b))))"

text \<open>\<^verbatim>\<open>_mix_hex(a, b, t)\<close>.\<close>

definition mix_hex :: "string \<Rightarrow> string \<Rightarrow> real \<Rightarrow> py_error + string" where
  "mix_hex a b t0 =
     (let t = clamp t0 0.0 1.0 in
      case hex_triple a of
        Inl e \<Rightarrow> Inl e
      | Inr (ar, ag, ab) \<Rightarrow>
          (case hex_triple b of
             Inl e \<Rightarrow> Inl e
           | Inr (br, bg, bb) \<Rightarrow>
               (let rr = py_int (real_of_int ar + real_of_int (br - ar) * t);
                    gg = py_int (real_of_int ag + real_of_int (bg - ag) * t);
                    bb2 = py_int (real_of_int ab + real_of_int (bb - ab) * t)
                in Inr (CHR ''#'' # format_02x rr @ format_02x gg @ format_02x bb2))))"

subsection \<open>\<^verbatim>\<open>credits.py\<close>: the overlay\<close>

text \<open>The colours of \<^verbatim>\<open>theme.py\<close> that the overlay reads.\<close>

record colors =
  color_bg :: string
  color_bg2 :: string
  color_text :: string
  color_muted :: string

definition theme_colors :: colors where
  "theme_colors = \<lparr>color_bg = ''#0b0f17'', color_bg2 = ''#0e1420'',
                    color_text = ''#e7edf7'', color_muted = ''#9fb0c6''\<rparr>"

text \<open>
  The overlay object. \<open>window\<close> and \<open>grab\<close> are the state of the Tk window behind it,
  \<open>overlay_timers\<close> the timers of the interpreter. Two counters record what has been
  done: \<open>reveals\<close> counts the replacements of the author line, \<open>close_callbacks\<close> the
  calls of \<^verbatim>\<open>on_close_cb\<close>.
\<close>

datatype window_state = Withdrawn | Shown | Destroyed

record credits_overlay =
  theme :: colors
  company_name :: ustr
  author_first :: ustr
  author_last :: ustr
  reveal_delay_ms :: int
  window :: window_state
  grab :: bool
  scene :: "scene_item canvas"
  running :: bool
  t0 :: real
  job :: "nat option"
  title_id :: "int option"
  sub_id :: "int option"
  scroll_ids :: "int list"
  overlay_timers :: timers
  reveals :: nat
  close_callbacks :: nat

text \<open>\<^verbatim>\<open>__init__\<close>; \<open>w\<close> and \<open>h\<close> are the size of the master window.\<close>

definition credits_overlay_init ::
  "colors \<Rightarrow> ustr \<Rightarrow> ustr \<Rightarrow> ustr \<Rightarrow> int \<Rightarrow> int \<Rightarrow> int \<Rightarrow> timers \<Rightarrow> credits_overlay" where
  "credits_overlay_init th company first_name last_name delay w h tm =
     \<lparr>theme = th, company_name = company, author_first = first_name,
      author_last = last_name,
      reveal_delay_ms = delay, window = Withdrawn, grab = False,
      scene = \<lparr>winfo_width = w, winfo_height = h, items = []\<rparr>,
      running = False, t0 = 0.0, job = None, title_id = None, sub_id = None,
      scroll_ids = [], overlay_timers = tm, reveals = 0, close_callbacks = 0\<rparr>"

definition redacted :: ustr where
  "redacted = ascii ''Author: [REDACTED]''"

text \<open>The revealed line, \<^verbatim>\<open>f"Author: {self.author_first} {self.author_last}"\<close>.\<close>

definition author_line :: "ustr \<Rightarrow> ustr \<Rightarrow> ustr" where
  "author_line first_name last_name = ascii ''Author: '' @ first_name @ ascii '' '' @ last_name"

text \<open>\<^verbatim>\<open>_credits_lines\<close>; 8212 is the em dash and 8226 the bullet.\<close>

definition credits_lines :: "ustr list" where
  "credits_lines =
     [ascii ''neuraforge '' @ [8212] @ ascii '' internal demo build'',
      [],
      ascii ''Design: Modern Tk'',
      ascii ''UI: ttk + canvas'',
      ascii ''Effects: particles + glow pulses'',
      ascii ''Challenge: OSINT pivot'',
      [],
      ascii ''Special thanks:'',
      [8226] @ ascii '' public corporate website'',
      [8226] @ ascii '' naming conventions'',
      [8226] @ ascii '' curious investigators'',
      [],
      ascii ''Author: [REDACTED]'',
      [],
      [8212] @ ascii '' end '' @ [8212]]"

text \<open>The loop of \<^verbatim>\<open>_setup_scene\<close> over \<^verbatim>\<open>enumerate(lines)\<close>, from position \<open>i\<close> on.\<close>

fun create_lines ::
  "nat \<Rightarrow> ustr list \<Rightarrow> real \<Rightarrow> real \<Rightarrow> string \<Rightarrow> scene_item canvas \<Rightarrow> int list
     \<Rightarrow> scene_item canvas \<times> int list" where
  "create_lines i [] x start_y col c ids = (c, ids)"
| "create_lines i (line # lines) x start_y col c ids =
     (let (cid, c') = create_text x (start_y + real i * 30) line col c
      in create_lines (Suc i) lines x start_y col c' (ids @ [cid]))"

text \<open>
  \<^verbatim>\<open>_setup_scene\<close>; \<open>ww\<close> and \<open>wh\<close> are what \<^verbatim>\<open>winfo_width()\<close> and \<^verbatim>\<open>winfo_height()\<close> of the
  window return at this moment.
\<close>

definition setup_scene :: "int \<Rightarrow> int \<Rightarrow> credits_overlay \<Rightarrow> credits_overlay" where
  "setup_scene ww wh ov =
     (let c0 = canvas_delete_tag ''all'' (scene ov);
          w = max 1 ww; h = max 1 wh;
          (tid, c1) = create_text (real_of_int (w div 2))
                        (real_of_int (py_int (real_of_int h * 0.18)))
                        (company_name ov) (color_text (theme ov)) c0;
          (sid, c2) = create_text (real_of_int (w div 2))
                        (real_of_int (py_int (real_of_int h * 0.18) + 54))
                        (ascii ''credits sequence '' @ [8226] @ ascii '' click or press ESC to close'')
                        (color_muted (theme ov)) c1;
          (c3, ids) = create_lines 0 credits_lines (real_of_int (w div 2))
                        (real_of_int (h + 120)) (color_muted (theme ov)) c2 []
      in ov\<lparr>scene := c3, title_id := Some tid, sub_id := Some sid, scroll_ids := ids\<rparr>)"

text \<open>The loop of \<^verbatim>\<open>_paint_background\<close> over the bands \<open>i, i + 1, ...\<close>, \<open>n\<close> of them.\<close>

fun paint_bands ::
  "nat \<Rightarrow> nat \<Rightarrow> int \<Rightarrow> int \<Rightarrow> real \<Rightarrow> colors \<Rightarrow> scene_item canvas
     \<Rightarrow> py_error + scene_item canvas" where
  "paint_bands i 0 w h t th c = Inr c"
| "paint_bands i (Suc n) w h t th c =
     (let y0 = py_int (real i * real_of_int h / 14);
          y1 = py_int ((real i + 1) * real_of_int h / 14);
          k = 0.08 + 0.06 * (1 + sin (t * 0.9 + real i * 0.6)) / 2
      in case mix_hex (color_bg th) (color_bg2 th) k of
           Inl e \<Rightarrow> Inl e
         | Inr col \<Rightarrow>
             paint_bands (Suc i) n w h t th
               (snd (create_rectangle 0 (real_of_int y0) (real_of_int w) (real_of_int y1)
                       col ''bg'' c)))"

definition paint_background ::
  "int \<Rightarrow> int \<Rightarrow> real \<Rightarrow> credits_overlay \<Rightarrow> py_error + credits_overlay" where
  "paint_background w h t ov =
     (case paint_bands 0 14 w h t (theme ov) (canvas_delete_tag ''bg'' (scene ov)) of
        Inl e \<Rightarrow> Inl e
      | Inr c \<Rightarrow> Inr (ov\<lparr>scene := c\<rparr>))"

definition animate_title ::
  "int \<Rightarrow> int \<Rightarrow> real \<Rightarrow> credits_overlay \<Rightarrow> py_error + credits_overlay" where
  "animate_title w h t ov =
     (case title_id ov of
        None \<Rightarrow> Inr ov
      | Some tid \<Rightarrow>
          (let y = py_int (real_of_int h * 0.18 + sin (t * 1.2) * 6)
           in case coords_set tid (real_of_int (w div 2)) (real_of_int y) (scene ov) of
                Inl e \<Rightarrow> Inl e
              | Inr c1 \<Rightarrow>
                  (case sub_id ov of
                     None \<Rightarrow> Inr (ov\<lparr>scene := c1\<rparr>)
                   | Some sid \<Rightarrow>
                       (case coords_set sid (real_of_int (w div 2)) (real_of_int (y + 54)) c1 of
                          Inl e \<Rightarrow> Inl e
                        | Inr c2 \<Rightarrow> Inr (ov\<lparr>scene := c2\<rparr>)))))"

text \<open>The two loops of \<^verbatim>\<open>_scroll_credits\<close>.\<close>

fun place_lines ::
  "nat \<Rightarrow> int list \<Rightarrow> real \<Rightarrow> real \<Rightarrow> scene_item canvas \<Rightarrow> py_error + scene_item canvas" where
  "place_lines i [] x base c = Inr c"
| "place_lines i (cid # cids) x base c =
     (case coords_set cid x (base + real i * 30) c of
        Inl e \<Rightarrow> Inl e
      | Inr c' \<Rightarrow> place_lines (Suc i) cids x base c')"

fun fade_lines ::
  "int list \<Rightarrow> colors \<Rightarrow> scene_item canvas \<Rightarrow> py_error + scene_item canvas" where
  "fade_lines [] th c = Inr c"
| "fade_lines (cid # cids) th c =
     (case coords_get cid c of
        [x, y] \<Rightarrow>
          (let k = clamp ((y - 40) / 220) 0.0 1.0
           in case mix_hex (color_bg th) (color_muted th) k of
                Inl e \<Rightarrow> Inl e
              | Inr col \<Rightarrow> fade_lines cids th (itemconfigure_fill cid col c))
      | _ \<Rightarrow> Inl ValueError)"

definition scroll_credits ::
  "int \<Rightarrow> int \<Rightarrow> real \<Rightarrow> credits_overlay \<Rightarrow> py_error + credits_overlay" where
  "scroll_credits w h t ov =
     (let base = real_of_int (h + 120) - t * 46
      in case place_lines 0 (scroll_ids ov) (real_of_int (w div 2)) base (scene ov) of
           Inl e \<Rightarrow> Inl e
         | Inr c1 \<Rightarrow>
             (case fade_lines (scroll_ids ov) (theme ov) c1 of
                Inl e \<Rightarrow> Inl e
              | Inr c2 \<Rightarrow> Inr (ov\<lparr>scene := c2\<rparr>)))"

text \<open>
  The loop of \<^verbatim>\<open>_reveal_author_if_needed\<close>: the first line whose stripped text is the
  redacted placeholder gets the author's name, and the loop stops there.
\<close>

fun reveal_scan :: "int list \<Rightarrow> credits_overlay \<Rightarrow> py_error + credits_overlay" where
  "reveal_scan [] ov = Inr ov"
| "reveal_scan (cid # cids) ov =
     (case itemcget_text cid (scene ov) of
        Inl e \<Rightarrow> Inl e
      | Inr txt \<Rightarrow>
          if py_strip txt = redacted
          then (case itemconfigure_text cid
                       (author_line (author_first ov) (author_last ov)) (scene ov) of
                  Inl e \<Rightarrow> Inl e
                | Inr c \<Rightarrow> Inr (ov\<lparr>scene := c, reveals := Suc (reveals ov)\<rparr>))
          else reveal_scan cids ov)"

definition reveal_author_if_needed :: "real \<Rightarrow> credits_overlay \<Rightarrow> py_error + credits_overlay" where
  "reveal_author_if_needed t ov =
     (if t * 1000 < real_of_int (reveal_delay_ms ov) then Inr ov
      else reveal_scan (scroll_ids ov) ov)"

text \<open>
  \<^verbatim>\<open>_loop\<close>, one frame. \<open>now\<close> is the reading of \<^verbatim>\<open>time.time()\<close>, \<open>ww\<close> and \<open>wh\<close> what
  \<^verbatim>\<open>winfo_width()\<close> and \<^verbatim>\<open>winfo_height()\<close> return; a destroyed window answers neither.
\<close>

definition loop :: "real \<Rightarrow> int \<Rightarrow> int \<Rightarrow> credits_overlay \<Rightarrow> py_error + credits_overlay" where
  "loop now ww wh ov =
     (if \<not> running ov then Inr ov
      else if window ov = Destroyed then Inl TclError
      else
        let t = now - t0 ov; w = max 1 ww; h = max 1 wh
        in case paint_background w h t ov of
             Inl e \<Rightarrow> Inl e
           | Inr ov1 \<Rightarrow>
               (case animate_title w h t ov1 of
                  Inl e \<Rightarrow> Inl e
                | Inr ov2 \<Rightarrow>
                    (case scroll_credits w h t ov2 of
                       Inl e \<Rightarrow> Inl e
                     | Inr ov3 \<Rightarrow>
                         (case reveal_author_if_needed t ov3 of
                            Inl e \<Rightarrow> Inl e
                          | Inr ov4 \<Rightarrow>
                              (let (j, tm) = tk_after 16 Credits_loop (overlay_timers ov4)
                               in Inr (ov4\<lparr>job := Some j, overlay_timers := tm\<rparr>))))))"

text \<open>
  \<^verbatim>\<open>show\<close>: \<open>now0\<close> is the reading of the clock that becomes \<^verbatim>\<open>_t0\<close>, \<open>now1\<close> the one of
  the first frame, which \<^verbatim>\<open>show\<close> runs itself.
\<close>

definition overlay_show ::
  "real \<Rightarrow> real \<Rightarrow> int \<Rightarrow> int \<Rightarrow> credits_overlay \<Rightarrow> py_error + credits_overlay" where
  "overlay_show now0 now1 ww wh ov =
     (if window ov = Destroyed then Inl TclError
      else loop now1 ww wh
             (setup_scene ww wh (ov\<lparr>window := Shown, grab := True, running := True, t0 := now0\<rparr>)))"

text \<open>
  Tk takes a timer out of its table when it runs the callback; \<^verbatim>\<open>_job\<close> still holds the
  identifier.
\<close>

definition timer_fired :: "credits_overlay \<Rightarrow> credits_overlay" where
  "timer_fired ov =
     (case job ov of
        None \<Rightarrow> ov
      | Some j \<Rightarrow> ov\<lparr>overlay_timers := tk_after_cancel j (overlay_timers ov)\<rparr>)"

text \<open>
  The frames that the timer runs, one per reading of the clock and of the window size.
\<close>

fun frames :: "(real \<times> int \<times> int) list \<Rightarrow> credits_overlay \<Rightarrow> py_error + credits_overlay" where
  "frames [] ov = Inr ov"
| "frames ((now, ww, wh) # rest) ov =
     (case loop now ww wh (timer_fired ov) of Inl e \<Rightarrow> Inl e | Inr ov' \<Rightarrow> frames rest ov')"

text \<open>
  A session: \<^verbatim>\<open>show()\<close> at clock reading \<open>now0\<close>, which runs the first frame itself,
  and the frames that the timer runs after it. The list holds the readings of all these
  frames; with no reading \<^verbatim>\<open>show()\<close> has not been called.
\<close>

fun session ::
  "real \<Rightarrow> (real \<times> int \<times> int) list \<Rightarrow> credits_overlay \<Rightarrow> py_error + credits_overlay" where
  "session now0 [] ov = Inr ov"
| "session now0 ((now1, ww, wh) # rest) ov =
     (case overlay_show now0 now1 ww wh ov of Inl e \<Rightarrow> Inl e | Inr ov' \<Rightarrow> frames rest ov')"


text \<open>
  \<^verbatim>\<open>close\<close>. Each of the three teardown calls and the callback either returns or raises;
  which of them raise is given by \<open>f\<close>. \<^verbatim>\<open>try: ... except Exception: pass\<close> keeps the state
  as it was before a call that raised.
\<close>

record teardown_faults =
  after_cancel_raises :: "py_error option"
  grab_release_raises :: "py_error option"
  destroy_raises :: "py_error option"
  callback_raises :: "py_error option"

definition try_pass ::
  "(credits_overlay \<Rightarrow> py_error + credits_overlay) \<Rightarrow> credits_overlay \<Rightarrow> credits_overlay" where
  "try_pass body ov = (case body ov of Inl e \<Rightarrow> ov | Inr ov' \<Rightarrow> ov')"

definition cancel_job :: "teardown_faults \<Rightarrow> credits_overlay \<Rightarrow> py_error + credits_overlay" where
  "cancel_job f ov =
     (case job ov of
        None \<Rightarrow> Inr ov
      | Some j \<Rightarrow>
          (case after_cancel_raises f of
             Some e \<Rightarrow> Inl e
           | None \<Rightarrow> Inr (ov\<lparr>overlay_timers := tk_after_cancel j (overlay_timers ov)\<rparr>)))"

definition grab_release :: "teardown_faults \<Rightarrow> credits_overlay \<Rightarrow> py_error + credits_overlay" where
  "grab_release f ov =
     (case grab_release_raises f of Some e \<Rightarrow> Inl e | None \<Rightarrow> Inr (ov\<lparr>grab := False\<rparr>))"

definition destroy :: "teardown_faults \<Rightarrow> credits_overlay \<Rightarrow> py_error + credits_overlay" where
  "destroy f ov =
     (case destroy_raises f of
        Some e \<Rightarrow> Inl e
      | None \<Rightarrow> Inr (ov\<lparr>window := Destroyed, grab := False\<rparr>))"

definition on_close_cb :: "teardown_faults \<Rightarrow> credits_overlay \<Rightarrow> py_error + credits_overlay" where
  "on_close_cb f ov =
     (case callback_raises f of
        Some e \<Rightarrow> Inl e
      | None \<Rightarrow> Inr (ov\<lparr>close_callbacks := Suc (close_callbacks ov)\<rparr>))"

definition overlay_close :: "teardown_faults \<Rightarrow> credits_overlay \<Rightarrow> py_error + credits_overlay" where
  "overlay_close f ov =
     (if \<not> running ov then Inr ov
      else
        let ov1 = ov\<lparr>running := False\<rparr>;
            ov2 = try_pass (cancel_job f) ov1;
            ov3 = try_pass (grab_release f) ov2;
            ov4 = try_pass (destroy f) ov3
        in on_close_cb f ov4)"

subsection \<open>The overlay: what a running scene looks like\<close>

text \<open>
  The text of item \<open>i\<close> when it is a text item that \<^verbatim>\<open>delete("bg")\<close> leaves alone.
\<close>

definition line_text :: "scene_item canvas \<Rightarrow> int \<Rightarrow> ustr option" where
  "line_text c i =
     (case canvas_item c i of
        None \<Rightarrow> None
      | Some it \<Rightarrow> if kind it = Text_item \<and> ''bg'' \<notin> set (tags it) then Some (item_text it)
                   else None)"

text \<open>The three colours that \<^verbatim>\<open>_mix_hex\<close> is given are of the form \<^verbatim>\<open>#rrggbb\<close>.\<close>

definition colors_parse :: "colors \<Rightarrow> bool" where
  "colors_parse th \<longleftrightarrow>
     (case hex_triple (color_bg th) of Inl e \<Rightarrow> False | Inr x \<Rightarrow>
        (case hex_triple (color_bg2 th) of Inl e \<Rightarrow> False | Inr y \<Rightarrow>
           (case hex_triple (color_muted th) of Inl e \<Rightarrow> False | Inr z \<Rightarrow> True)))"

text \<open>
  The state of an overlay between two frames: it is running on a live window, its colours
  parse, and its credit lines are on the canvas with the texts of \<^verbatim>\<open>_credits_lines\<close>, the
  author line reading \<open>x\<close>.
\<close>

definition scene_inv :: "credits_overlay \<Rightarrow> ustr \<Rightarrow> bool" where
  "scene_inv ov x \<longleftrightarrow>
     running ov \<and> window ov \<noteq> Destroyed \<and> colors_parse (theme ov)
     \<and> distinct (scroll_ids ov)
     \<and> map (line_text (scene ov)) (scroll_ids ov) = map Some (credits_lines[12 := x])
     \<and> (\<exists>tid s. title_id ov = Some tid \<and> line_text (scene ov) tid = Some s)
     \<and> (\<exists>sid s. sub_id ov = Some sid \<and> line_text (scene ov) sid = Some s)"

subsection \<open>Values of the application\<close>

text \<open>The palette of \<^verbatim>\<open>theme.py\<close> handed to the particle field, and a canvas with no item yet.\<close>

definition particle_palette :: "string list" where
  "particle_palette = [''#6ee7ff'', ''#a78bfa'', ''#6cffb5'', ''#ffd166'']"

definition empty_canvas :: "int \<Rightarrow> int \<Rightarrow> oval canvas" where
  "empty_canvas w h = \<lparr>winfo_width = w, winfo_height = h, items = []\<rparr>"


text \<open>A field whose one particle is far outside the bounds that \<^verbatim>\<open>step\<close> clamps to.\<close>

definition fast_particle :: particle where
  "fast_particle = \<lparr>px = 799, py = 10, vx = 5, vy = - 3, pr = 2, alpha = 7, hue_idx = 0, item = - 1\<rparr>"

definition fast_field :: particle_field where
  "fast_field = \<lparr>palette = particle_palette, pf_rng = sconst 0, particles = [fast_particle],
                 boost_pending = 0, count = 0\<rparr>"

text \<open>The palette of \<^verbatim>\<open>theme.py\<close> handed to the glow pulse.\<close>

definition pulse_palette :: "string list" where
  "pulse_palette = [''#6ee7ff'', ''#a78bfa'', ''#ffd166'']"

text \<open>
  A session of the overlay as the application opens it: the theme's colours, the author
  Alex Dubois, a reveal delay of 50 ms, and five frames 16 ms apart.
\<close>

definition demo_frames :: "(real \<times> int \<times> int) list" where
  "demo_frames = [(100, 1, 1), (100.016, 1120, 680), (100.032, 1120, 680),
                  (100.048, 1120, 680), (100.064, 1120, 680)]"

definition demo_overlay :: credits_overlay where
  "demo_overlay = credits_overlay_init theme_colors (ascii ''neuraforge'') (ascii ''Alex'')
                    (ascii ''Dubois'') 50 1120 680 \<lparr>pending = [], issued = 0\<rparr>"




text \<open>A teardown in which every Tk call raises and the callback returns.\<close>

definition all_teardown_fails :: teardown_faults where
  "all_teardown_fails = \<lparr>after_cancel_raises = Some TclError, grab_release_raises = Some TclError,
                          destroy_raises = Some TclError, callback_raises = None\<rparr>"

section \<open>Properties\<close>

subsection \<open>The particle field: auxiliary facts\<close>

lemma rng_random_range: "0 \<le> fst (rng_random g) \<and> fst (rng_random g) < 1"
  by (simp add: rng_random_def)

lemma clamp_range: "lo \<le> hi \<Longrightarrow> lo \<le> clamp x lo hi \<and> clamp x lo hi \<le> hi"
  by (simp add: clamp_def)

lemma damp_range: "- b \<le> v \<Longrightarrow> v \<le> b \<Longrightarrow> - b \<le> v * (- 0.9) \<and> v * (- 0.9) \<le> (b::real)"
  by simp

lemma move_alpha: "alpha (fst (move w h p g)) =
    clamp (alpha p + (fst (rng_random (snd (rng_random (snd (rng_random g))))) - 0.45) * 0.03) 0.18 1.0"
  by (simp add: move_def Let_def split_beta)

lemma move_vx: "vx (fst (move w h p g)) =
   (let v = clamp (vx p + (fst (rng_random g) - 0.5) * 0.02) (- 1.2) 1.2
    in if px p + vx p < 0 \<or> px p + vx p > real_of_int w then v * (- 0.9) else v)"
  by (simp add: move_def Let_def split_beta)

lemma move_vy: "vy (fst (move w h p g)) =
   (let v = clamp (vy p + (fst (rng_random (snd (rng_random g))) - 0.5) * 0.02) (- 0.9) 0.9
    in if py p + vy p < 0 \<or> py p + vy p > real_of_int h then v * (- 0.9) else v)"
  by (simp add: move_def Let_def split_beta)

lemma move_in_bounds: "in_bounds (fst (move w h p g))"
proof -
  have a: "0.18 \<le> alpha (fst (move w h p g)) \<and> alpha (fst (move w h p g)) \<le> 1.0"
    unfolding move_alpha by (rule clamp_range) simp
  have vx: "- 1.2 \<le> vx (fst (move w h p g)) \<and> vx (fst (move w h p g)) \<le> 1.2"
    unfolding move_vx Let_def
    using clamp_range[of "- 1.2" "1.2" "vx p + (fst (rng_random g) - 0.5) * 0.02"]
          damp_range[of "1.2" "clamp (vx p + (fst (rng_random g) - 0.5) * 0.02) (- 1.2) 1.2"]
    by (simp split: if_splits)
  have vy: "- 0.9 \<le> vy (fst (move w h p g)) \<and> vy (fst (move w h p g)) \<le> 0.9"
    unfolding move_vy Let_def
    using clamp_range[of "- 0.9" "0.9" "vy p + (fst (rng_random (snd (rng_random g))) - 0.5) * 0.02"]
          damp_range[of "0.9" "clamp (vy p + (fst (rng_random (snd (rng_random g))) - 0.5) * 0.02) (- 0.9) 0.9"]
    by (simp split: if_splits)
  show ?thesis using a vx vy by (simp add: in_bounds_def)
qed

lemma spawn_one_ok:
  assumes "pal \<noteq> []"
  shows "\<exists>p g'. spawn_one w h pal g = Inr (p, g') \<and> item p = - 1 \<and> in_bounds p"
proof -
  have r: "\<And>g. 0 \<le> fst (rng_random g) \<and> fst (rng_random g) < 1" by (rule rng_random_range)
  define g2 where "g2 = snd (rng_random (snd (rng_random g)))"
  define g4 where "g4 = snd (rng_random (snd (rng_random g2)))"
  define g5 where "g5 = snd (rng_random g4)"
  have "spawn_one w h pal g = Inr (\<lparr>px = fst (rng_random g) * real_of_int w,
          py = fst (rng_random (snd (rng_random g))) * real_of_int h,
          vx = (fst (rng_random g4) - 0.5) * 0.9, vy = (fst (rng_random g5) - 0.5) * 0.6,
          pr = 1.2 + fst (rng_random (snd (rng_random g2))) * 2.6,
          alpha = 0.25 + fst (rng_random g2) * 0.75,
          hue_idx = int (shd (snd (rng_random g5))) mod int (length pal), item = - 1\<rparr>,
          stl (snd (rng_random g5)))"
    using assms by (simp add: spawn_one_def rng_randrange_def split_beta Let_def g2_def g4_def g5_def)
  moreover have "in_bounds \<lparr>px = fst (rng_random g) * real_of_int w,
          py = fst (rng_random (snd (rng_random g))) * real_of_int h,
          vx = (fst (rng_random g4) - 0.5) * 0.9, vy = (fst (rng_random g5) - 0.5) * 0.6,
          pr = 1.2 + fst (rng_random (snd (rng_random g2))) * 2.6,
          alpha = 0.25 + fst (rng_random g2) * 0.75,
          hue_idx = int (shd (snd (rng_random g5))) mod int (length pal), item = - 1\<rparr>"
    using r[of g2] r[of g4] r[of g5] by (simp add: in_bounds_def)
  ultimately show ?thesis by simp
qed

lemma spawn_loop_ok:
  assumes "pal \<noteq> []"
  shows "\<exists>g' new. spawn_loop n w h pal g ps = Inr (g', ps @ new) \<and> length new = n
            \<and> (\<forall>p\<in>set new. item p = - 1 \<and> in_bounds p)"
proof (induction n arbitrary: g ps)
  case 0
  then show ?case by simp
next
  case (Suc n)
  obtain p g1 where one: "spawn_one w h pal g = Inr (p, g1)" "item p = - 1" "in_bounds p"
    using spawn_one_ok[OF assms] by blast
  obtain g' new where rest: "spawn_loop n w h pal g1 (ps @ [p]) = Inr (g', (ps @ [p]) @ new)"
      "length new = n" "\<forall>q\<in>set new. item q = - 1 \<and> in_bounds q"
    using Suc.IH by blast
  have "spawn_loop (Suc n) w h pal g ps = Inr (g', ps @ (p # new))"
    using one(1) rest(1) by simp
  moreover have "length (p # new) = Suc n" using rest(2) by simp
  moreover have "\<forall>q\<in>set (p # new). item q = - 1 \<and> in_bounds q"
    using one(2,3) rest(3) by simp
  ultimately show ?case by blast
qed

lemma move_all_length: "length (fst (move_all w h ps g)) = length ps"
  by (induction ps arbitrary: g) (simp_all add: split_beta Let_def)

lemma move_all_in_bounds: "\<forall>p\<in>set (fst (move_all w h ps g)). in_bounds p"
  by (induction ps arbitrary: g) (simp_all add: split_beta Let_def move_in_bounds)

lemma canvas_item_delete: "canvas_item (canvas_delete i c) j = (if j = i then None else canvas_item c j)"
  by (auto simp add: canvas_item_def canvas_delete_def nth_list_update)

lemma render_one_ok:
  assumes "pal \<noteq> []"
  shows "\<exists>p' c' g'. render_one pal p (c, g) = Inr (p', c', g') \<and> item p' \<noteq> - 1
           \<and> alpha p' = alpha p \<and> vx p' = vx p \<and> vy p' = vy p"
  using assms
  by (simp add: render_one_def Let_def split_beta canvas_create_def)

lemma render_all_ok:
  assumes "pal \<noteq> []"
  shows "\<exists>ps' c' g'. render_all pal ps (c, g) = Inr (ps', c', g') \<and> length ps' = length ps
           \<and> (\<forall>p\<in>set ps'. item p \<noteq> - 1)
           \<and> ((\<forall>p\<in>set ps. in_bounds p) \<longrightarrow> (\<forall>p\<in>set ps'. in_bounds p))"
proof (induction ps arbitrary: c g)
  case Nil
  then show ?case by simp
next
  case (Cons p ps)
  obtain p' c1 g1 where one: "render_one pal p (c, g) = Inr (p', c1, g1)" "item p' \<noteq> - 1"
      "alpha p' = alpha p" "vx p' = vx p" "vy p' = vy p"
    using render_one_ok[OF assms] by blast
  obtain ps' c' g' where rest: "render_all pal ps (c1, g1) = Inr (ps', c', g')"
      "length ps' = length ps" "\<forall>q\<in>set ps'. item q \<noteq> - 1"
      "(\<forall>q\<in>set ps. in_bounds q) \<longrightarrow> (\<forall>q\<in>set ps'. in_bounds q)"
    using Cons.IH by blast
  have "render_all pal (p # ps) (c, g) = Inr (p' # ps', c', g')"
    using one(1) rest(1) by simp
  moreover have "in_bounds p \<Longrightarrow> in_bounds p'"
    using one(3,4,5) by (simp add: in_bounds_def)
  ultimately show ?case using one(2) rest(2,3,4) by auto
qed

lemma evict_keeps_deleted:
  "evict k ps c = Inr (ps', c') \<Longrightarrow> canvas_item c j = None \<Longrightarrow> canvas_item c' j = None"
proof (induction k ps c rule: evict.induct)
  case (1 ps c)
  then show ?case by simp
next
  case (2 k c)
  then show ?case by simp
next
  case (3 k old ps c)
  then show ?case by (simp add: canvas_item_delete split: if_splits)
qed

lemma evict_ok:
  "k \<le> length ps \<Longrightarrow>
   \<exists>c'. evict k ps c = Inr (drop k ps, c')
         \<and> (\<forall>p\<in>set (take k ps). canvas_item c' (item p) = None)"
proof (induction k ps c rule: evict.induct)
  case (1 ps c)
  then show ?case by simp
next
  case (2 k c)
  then show ?case by simp
next
  case (3 k old ps c)
  let ?c1 = "if item old \<noteq> - 1 then canvas_delete (item old) c else c"
  obtain c' where rest: "evict k ps ?c1 = Inr (drop k ps, c')"
      "\<forall>p\<in>set (take k ps). canvas_item c' (item p) = None"
    using 3 by auto
  have "canvas_item ?c1 (item old) = None"
  proof (cases "item old = - 1")
    case True
    then show ?thesis by (simp add: canvas_item_def)
  next
    case False
    then show ?thesis by (simp add: canvas_item_delete)
  qed
  then have "canvas_item c' (item old) = None"
    using evict_keeps_deleted[OF rest(1)] by blast
  then show ?case using rest by simp
qed

lemma spawn_ok:
  assumes "palette pf \<noteq> []"
  shows "\<exists>g new. spawn n c pf = Inr (pf\<lparr>pf_rng := g, particles := particles pf @ new\<rparr>)
           \<and> length new = nat n \<and> (\<forall>p\<in>set new. item p = - 1 \<and> in_bounds p)"
proof -
  obtain g new where
    "spawn_loop (nat n) (max 1 (winfo_width c)) (max 1 (winfo_height c)) (palette pf)
       (pf_rng pf) (particles pf) = Inr (g, particles pf @ new)"
    "length new = nat n" "\<forall>p\<in>set new. item p = - 1 \<and> in_bounds p"
    using spawn_loop_ok[OF assms] by blast
  then show ?thesis by (auto simp add: spawn_def Let_def)
qed

lemma step_advance_ok:
  assumes "palette pf \<noteq> []"
  shows "\<exists>c1 pf1. step_advance c pf = Inr (c1, pf1) \<and> palette pf1 = palette pf
           \<and> int (length (particles pf1)) = int (length (particles pf)) + drained pf
           \<and> count pf1 = int (length (particles pf1))
           \<and> boost_pending pf1 = boost_pending pf - drained pf
           \<and> (\<forall>p\<in>set (particles pf1). item p \<noteq> - 1 \<and> in_bounds p)"
proof -
  let ?w = "max 1 (winfo_width c)" and ?h = "max 1 (winfo_height c)"
  let ?drain = "if boost_pending pf > 0
               then spawn (min 8 (boost_pending pf)) c
                      (pf\<lparr>boost_pending := boost_pending pf - min 8 (boost_pending pf)\<rparr>)
               else Inr pf"
  have "\<exists>pfa. ?drain = Inr pfa \<and> palette pfa = palette pf
          \<and> int (length (particles pfa)) = int (length (particles pf)) + drained pf
          \<and> boost_pending pfa = boost_pending pf - drained pf"
  proof (cases "boost_pending pf > 0")
    case True
    let ?pfb = "pf\<lparr>boost_pending := boost_pending pf - min 8 (boost_pending pf)\<rparr>"
    have "palette ?pfb \<noteq> []" using assms by simp
    from spawn_ok[OF this, of "min 8 (boost_pending pf)" c]
    obtain g new where
      "spawn (min 8 (boost_pending pf)) c ?pfb
         = Inr (?pfb\<lparr>pf_rng := g, particles := particles ?pfb @ new\<rparr>)"
      "length new = nat (min 8 (boost_pending pf))" by blast
    then show ?thesis using True by (simp add: drained_def Let_def)
  next
    case False
    then show ?thesis by (simp add: drained_def)
  qed
  then obtain pfa where a: "?drain = Inr pfa" "palette pfa = palette pf"
      "int (length (particles pfa)) = int (length (particles pf)) + drained pf"
      "boost_pending pfa = boost_pending pf - drained pf" by blast
  obtain ps2 g2 where m: "move_all ?w ?h (particles pfa) (pf_rng pfa) = (ps2, g2)"
    by (cases "move_all ?w ?h (particles pfa) (pf_rng pfa)")
  have m_len: "length ps2 = length (particles pfa)" and m_bnd: "\<forall>p\<in>set ps2. in_bounds p"
    using move_all_length[of ?w ?h "particles pfa" "pf_rng pfa"]
          move_all_in_bounds[of ?w ?h "particles pfa" "pf_rng pfa"] m by simp_all
  have "palette pfa \<noteq> []" using assms a(2) by simp
  from render_all_ok[OF this, of ps2 c g2]
  obtain ps3 c3 g3 where r: "render_all (palette pfa) ps2 (c, g2) = Inr (ps3, c3, g3)"
      "length ps3 = length ps2" "\<forall>p\<in>set ps3. item p \<noteq> - 1" "\<forall>p\<in>set ps3. in_bounds p"
    using m_bnd by blast
  have "step_advance c pf
          = Inr (c3, pfa\<lparr>pf_rng := g3, particles := ps3, count := int (length ps3)\<rparr>)"
  proof -
    have "step_advance c pf =
            (case ?drain of Inl e \<Rightarrow> Inl e
             | Inr pf1 \<Rightarrow>
                 (case move_all ?w ?h (particles pf1) (pf_rng pf1) of
                    (ps2, g2) \<Rightarrow>
                      (case render_all (palette pf1) ps2 (c, g2) of
                         Inl e \<Rightarrow> Inl e
                       | Inr (ps3, c3, g3) \<Rightarrow>
                           Inr (c3, pf1\<lparr>pf_rng := g3, particles := ps3,
                                         count := int (length ps3)\<rparr>))))"
      by (simp add: step_advance_def Let_def split: sum.split)
    also have "\<dots> = Inr (c3, pfa\<lparr>pf_rng := g3, particles := ps3, count := int (length ps3)\<rparr>)"
      by (simp only: a(1) m r(1) sum.case prod.case)
    finally show ?thesis .
  qed
  then show ?thesis using a(2,3,4) m_len r(2,3,4) by simp
qed

lemma step_cap_ok:
  "\<exists>c2. step_cap c1 pf1
           = Inr (c2, pf1\<lparr>particles := drop (length (particles pf1) - 160) (particles pf1)\<rparr>)
         \<and> (\<forall>p\<in>set (take (length (particles pf1) - 160) (particles pf1)).
               canvas_item c2 (item p) = None)"
proof (cases "length (particles pf1) > 160")
  case True
  have "length (particles pf1) - 160 \<le> length (particles pf1)" by simp
  from evict_ok[OF this, of c1] obtain c2 where
    "evict (length (particles pf1) - 160) (particles pf1) c1
       = Inr (drop (length (particles pf1) - 160) (particles pf1), c2)"
    "\<forall>p\<in>set (take (length (particles pf1) - 160) (particles pf1)).
        canvas_item c2 (item p) = None" by blast
  then show ?thesis using True by (simp add: step_cap_def)
next
  case False
  then show ?thesis by (simp add: step_cap_def)
qed

lemma step_ok:
  assumes "palette pf \<noteq> []"
  shows "\<exists>c1 pf1 c2. step_advance c pf = Inr (c1, pf1)
           \<and> step c pf = Inr (c2, pf1\<lparr>particles := drop (length (particles pf1) - 160) (particles pf1)\<rparr>)
           \<and> palette pf1 = palette pf
           \<and> int (length (particles pf1)) = int (length (particles pf)) + drained pf
           \<and> count pf1 = int (length (particles pf1))
           \<and> boost_pending pf1 = boost_pending pf - drained pf
           \<and> (\<forall>p\<in>set (particles pf1). item p \<noteq> - 1 \<and> in_bounds p)
           \<and> (\<forall>p\<in>set (take (length (particles pf1) - 160) (particles pf1)).
                 canvas_item c2 (item p) = None)"
proof -
  obtain c1 pf1 where a: "step_advance c pf = Inr (c1, pf1)" "palette pf1 = palette pf"
      "int (length (particles pf1)) = int (length (particles pf)) + drained pf"
      "count pf1 = int (length (particles pf1))"
      "boost_pending pf1 = boost_pending pf - drained pf"
      "\<forall>p\<in>set (particles pf1). item p \<noteq> - 1 \<and> in_bounds p"
    using step_advance_ok[OF assms] by blast
  obtain c2 where b: "step_cap c1 pf1
           = Inr (c2, pf1\<lparr>particles := drop (length (particles pf1) - 160) (particles pf1)\<rparr>)"
      "\<forall>p\<in>set (take (length (particles pf1) - 160) (particles pf1)).
               canvas_item c2 (item p) = None"
    using step_cap_ok by blast
  have "step c pf = Inr (c2, pf1\<lparr>particles := drop (length (particles pf1) - 160) (particles pf1)\<rparr>)"
    using a(1) b(1) by (simp add: step_def)
  then show ?thesis using a b(2) by blast
qed

lemma particle_field_init_ok:
  assumes "pal \<noteq> []"
  shows "\<exists>pf0. particle_field_init c pal g = Inr pf0 \<and> palette pf0 = pal
           \<and> length (particles pf0) = 42 \<and> boost_pending pf0 = 0 \<and> count pf0 = 0
           \<and> (\<forall>p\<in>set (particles pf0). item p = - 1 \<and> in_bounds p)"
proof -
  let ?pf = "\<lparr>palette = pal, pf_rng = g, particles = [], boost_pending = 0, count = 0\<rparr>"
  have "palette ?pf \<noteq> []" using assms by simp
  from spawn_ok[OF this, of 42 c] show ?thesis
    by (auto simp add: particle_field_init_def)
qed

lemma step_invariant:
  assumes "palette pf \<noteq> []" "length (particles pf) \<le> 160" "0 \<le> boost_pending pf"
  shows "\<exists>c' pf'. step c pf = Inr (c', pf') \<and> palette pf' = palette pf
           \<and> int (length (particles pf')) = min 160 (int (length (particles pf)) + drained pf)
           \<and> boost_pending pf' = boost_pending pf - drained pf
           \<and> 0 \<le> boost_pending pf'
           \<and> count pf' = int (length (particles pf)) + drained pf
           \<and> (\<forall>p\<in>set (particles pf'). item p \<noteq> - 1 \<and> in_bounds p)"
proof -
  obtain c1 pf1 c2 where s: "step_advance c pf = Inr (c1, pf1)"
      "step c pf = Inr (c2, pf1\<lparr>particles := drop (length (particles pf1) - 160) (particles pf1)\<rparr>)"
      "palette pf1 = palette pf"
      "int (length (particles pf1)) = int (length (particles pf)) + drained pf"
      "count pf1 = int (length (particles pf1))"
      "boost_pending pf1 = boost_pending pf - drained pf"
      "\<forall>p\<in>set (particles pf1). item p \<noteq> - 1 \<and> in_bounds p"
    using step_ok[OF assms(1), of c] by blast
  have d: "0 \<le> drained pf \<and> drained pf \<le> boost_pending pf"
    using assms(3) by (simp add: drained_def)
  have "\<forall>p\<in>set (drop (length (particles pf1) - 160) (particles pf1)). item p \<noteq> - 1 \<and> in_bounds p"
    using s(7) by (meson in_set_dropD)
  moreover have "int (length (drop (length (particles pf1) - 160) (particles pf1)))
                   = min 160 (int (length (particles pf)) + drained pf)"
    using s(4) by (simp add: min_def)
  ultimately show ?thesis using s(2,3,5,6) s(4) d by simp
qed

lemma run_field_append:
  "run_field (xs @ ys) s = (case run_field xs s of Inl e \<Rightarrow> Inl e | Inr s' \<Rightarrow> run_field ys s')"
proof (induction xs s rule: run_field.induct)
  case (1 s)
  then show ?case by simp
next
  case (2 es c pf)
  then show ?case by (simp split: sum.split)
next
  case (3 amt es c pf)
  then show ?case by simp
next
  case (4 f es c pf)
  then show ?case by simp
qed

lemma run_field_invariant:
  assumes "palette pf \<noteq> []" "length (particles pf) \<le> 160" "0 \<le> boost_pending pf"
      "\<forall>p\<in>set (particles pf). in_bounds p" "count pf \<le> 168"
  shows "\<exists>c' pf'. run_field evs (c, pf) = Inr (c', pf') \<and> palette pf' = palette pf
           \<and> length (particles pf') \<le> 160 \<and> 0 \<le> boost_pending pf'
           \<and> (\<forall>p\<in>set (particles pf'). in_bounds p) \<and> count pf' \<le> 168"
  using assms
proof (induction evs arbitrary: c pf)
  case Nil
  then show ?case by simp
next
  case (Cons e evs)
  show ?case
  proof (cases e)
    case Step
    obtain c1 pf1 where s: "step c pf = Inr (c1, pf1)" "palette pf1 = palette pf"
        "int (length (particles pf1)) = min 160 (int (length (particles pf)) + drained pf)"
        "0 \<le> boost_pending pf1" "count pf1 = int (length (particles pf)) + drained pf"
        "\<forall>p\<in>set (particles pf1). item p \<noteq> - 1 \<and> in_bounds p"
      using step_invariant[OF Cons.prems(1,2,3), of c] by blast
    have "drained pf \<le> 8" by (simp add: drained_def)
    then have "count pf1 \<le> 168" using s(5) Cons.prems(2) by simp
    moreover have "length (particles pf1) \<le> 160" using s(3) by simp
    ultimately obtain c' pf' where "run_field evs (c1, pf1) = Inr (c', pf')"
        "palette pf' = palette pf1" "length (particles pf') \<le> 160" "0 \<le> boost_pending pf'"
        "\<forall>p\<in>set (particles pf'). in_bounds p" "count pf' \<le> 168"
      using Cons.IH[of pf1 c1] s(2,4,6) Cons.prems(1) by auto
    then show ?thesis using Step s(1,2) by simp
  next
    case (Boost amt)
    have "\<exists>c' pf'. run_field evs (c, boost amt pf) = Inr (c', pf')
            \<and> palette pf' = palette (boost amt pf) \<and> length (particles pf') \<le> 160
            \<and> 0 \<le> boost_pending pf' \<and> (\<forall>p\<in>set (particles pf'). in_bounds p) \<and> count pf' \<le> 168"
      using Cons.prems by (intro Cons.IH) (simp_all add: boost_def)
    then show ?thesis using Boost by (simp add: boost_def)
  next
    case (Canvas_changed f)
    then show ?thesis using Cons.IH[OF Cons.prems, of "f c"] by simp
  qed
qed

lemma run_steps_drain:
  assumes "palette pf \<noteq> []" "length (particles pf) \<le> 160" "0 \<le> boost_pending pf"
  shows "\<exists>c' pf'. run_field (replicate n Step) (c, pf) = Inr (c', pf')
           \<and> palette pf' = palette pf
           \<and> boost_pending pf' = max 0 (boost_pending pf - 8 * int n)
           \<and> int (length (particles pf'))
               = min 160 (int (length (particles pf)) + min (boost_pending pf) (8 * int n))"
  using assms
proof (induction n arbitrary: c pf)
  case 0
  then show ?case by simp
next
  case (Suc n)
  obtain c1 pf1 where s: "step c pf = Inr (c1, pf1)" "palette pf1 = palette pf"
      "int (length (particles pf1)) = min 160 (int (length (particles pf)) + drained pf)"
      "boost_pending pf1 = boost_pending pf - drained pf"
      "0 \<le> boost_pending pf1"
    using step_invariant[OF Suc.prems, of c] by blast
  have len1: "length (particles pf1) \<le> 160" using s(3) by simp
  have pal1: "palette pf1 \<noteq> []" using s(2) Suc.prems(1) by simp
  obtain c' pf' where r: "run_field (replicate n Step) (c1, pf1) = Inr (c', pf')"
      "palette pf' = palette pf1"
      "boost_pending pf' = max 0 (boost_pending pf1 - 8 * int n)"
      "int (length (particles pf'))
         = min 160 (int (length (particles pf1)) + min (boost_pending pf1) (8 * int n))"
    using Suc.IH[OF pal1 len1 s(5), of c1] by blast
  have d: "drained pf = min 8 (boost_pending pf)"
    using Suc.prems(3) by (simp add: drained_def)
  have "boost_pending pf' = max 0 (boost_pending pf - 8 * int (Suc n))"
    using r(3) s(4) d Suc.prems(3) by (simp add: min_def max_def)
  moreover have "int (length (particles pf'))
       = min 160 (int (length (particles pf)) + min (boost_pending pf) (8 * int (Suc n)))"
    using r(4) s(3,4) d Suc.prems(2,3) by (simp add: min_def max_def)
  ultimately show ?case using s(1,2) r(1,2) by simp
qed

lemma fast_field_step:
  "step (empty_canvas 800 190) fast_field =
     Inr (\<lparr>winfo_width = 800, winfo_height = 190,
           items = [Some \<lparr>bbox = (798, 5, 802, 9), fill = ''#6ee7ff'', outline = '''',
                          outline_width = 1\<rparr>]\<rparr>,
          \<lparr>palette = particle_palette, pf_rng = sconst 0,
           particles = [\<lparr>px = 800, py = 7, vx = - 1.08, vy = - 0.9, pr = 2, alpha = 1,
                         hue_idx = 0, item = 1\<rparr>],
           boost_pending = 0, count = 1\<rparr>)"
  by (simp add: step_def step_advance_def step_cap_def fast_field_def fast_particle_def
      particle_palette_def empty_canvas_def move_def render_one_def rng_random_def clamp_def
      canvas_create_def Let_def)


lemma run_steps_pending:
  assumes "palette pf \<noteq> []" "0 \<le> boost_pending pf"
  shows "\<exists>c' pf'. run_field (replicate n Step) (c, pf) = Inr (c', pf')
           \<and> palette pf' = palette pf
           \<and> boost_pending pf' = max 0 (boost_pending pf - 8 * int n)"
  using assms
proof (induction n arbitrary: c pf)
  case 0
  then show ?case by simp
next
  case (Suc n)
  obtain pf1 c2 where s:
      "step c pf = Inr (c2, pf1\<lparr>particles := drop (length (particles pf1) - 160) (particles pf1)\<rparr>)"
      "palette pf1 = palette pf" "boost_pending pf1 = boost_pending pf - drained pf"
    using step_ok[OF Suc.prems(1), of c] by blast
  let ?pf2 = "pf1\<lparr>particles := drop (length (particles pf1) - 160) (particles pf1)\<rparr>"
  have d: "drained pf = min 8 (boost_pending pf)"
    using Suc.prems(2) by (simp add: drained_def)
  have p2: "palette ?pf2 \<noteq> []" "0 \<le> boost_pending ?pf2"
    using s(2,3) d Suc.prems by simp_all
  obtain c' pf' where r: "run_field (replicate n Step) (c2, ?pf2) = Inr (c', pf')"
      "palette pf' = palette ?pf2"
      "boost_pending pf' = max 0 (boost_pending ?pf2 - 8 * int n)"
    using Suc.IH[OF p2, of c2] by blast
  have "boost_pending pf' = max 0 (boost_pending pf - 8 * int (Suc n))"
    using r(3) s(3) d Suc.prems(2) by (simp add: min_def max_def)
  then show ?case using s(1,2) r(1,2) by simp
qed

lemma drain_sum:
  "0 \<le> a \<Longrightarrow> (\<Sum>k<n. min 8 (max 0 (a - 8 * int k))) = min a (8 * int n)"
  by (induction n) (simp_all add: min_def max_def)


subsection \<open>The glow pulse: auxiliary facts\<close>

lemma glow_spawn_pulses:
  "\<exists>p. pulses (glow_spawn w h s gp) = pulses gp @ [p] \<and> ring_item p = - 1"
  by (simp add: glow_spawn_def Let_def split_beta)

lemma glow_spawn_palette: "glow_palette (glow_spawn w h s gp) = glow_palette gp"
  by (simp add: glow_spawn_def Let_def split_beta)

lemma grow_alive_length: "length (grow_alive ps) \<le> length ps"
  by (induction ps) (simp_all add: Let_def le_SucI)

lemma glow_render_ok:
  assumes "pal \<noteq> []"
  shows "\<exists>ps' c'. glow_render i pal ps c = Inr (ps', c') \<and> length ps' = length ps
           \<and> (\<forall>p\<in>set ps'. ring_item p \<noteq> - 1)"
proof (induction ps arbitrary: i c)
  case Nil
  then show ?case by simp
next
  case (Cons p ps)
  let ?col = "pal ! (i mod length pal)"
  let ?b = "(cx p - ring_r p, cy p - ring_r p, cx p + ring_r p, cy p + ring_r p)"
  let ?pc = "if ring_item p = - 1
                then (let (j, c1) = canvas_create
                            \<lparr>bbox = ?b, fill = '''', outline = ?col, outline_width = 2\<rparr> c
                      in (p\<lparr>ring_item := j\<rparr>, c1))
                else (p, canvas_update (ring_item p) (\<lambda>it. it\<lparr>outline := ?col\<rparr>)
                           (canvas_coords (ring_item p) ?b c))"
  have it: "ring_item (fst ?pc) \<noteq> - 1"
    by (simp add: canvas_create_def)
  obtain ps' c' where r: "glow_render (Suc i) pal ps (snd ?pc) = Inr (ps', c')"
      "length ps' = length ps" "\<forall>q\<in>set ps'. ring_item q \<noteq> - 1"
    using Cons.IH by blast
  have "glow_render i pal (p # ps) c = Inr (fst ?pc # ps', c')"
    using assms r(1) by (simp add: Let_def split_beta)
  then show ?case using it r(2,3) by simp
qed

lemma delete_visuals_keeps_deleted:
  "canvas_item c j = None \<Longrightarrow> canvas_item (delete_visuals ps c) j = None"
  by (induction ps arbitrary: c) (simp_all add: canvas_item_delete)

lemma delete_visuals_deleted:
  "\<forall>p\<in>set ps. canvas_item (delete_visuals ps c) (ring_item p) = None"
proof (induction ps arbitrary: c)
  case Nil
  then show ?case by simp
next
  case (Cons extra ps)
  let ?c1 = "if ring_item extra \<noteq> - 1 then canvas_delete (ring_item extra) c else c"
  have "canvas_item ?c1 (ring_item extra) = None"
  proof (cases "ring_item extra = - 1")
    case True
    then show ?thesis by (simp add: canvas_item_def)
  next
    case False
    then show ?thesis by (simp add: canvas_item_delete)
  qed
  then have "canvas_item (delete_visuals ps ?c1) (ring_item extra) = None"
    by (rule delete_visuals_keeps_deleted)
  then show ?case using Cons.IH[of ?c1] by simp
qed

lemma glow_advance_ok:
  assumes "glow_palette gp \<noteq> []"
  shows "\<exists>c1 gp1. glow_advance c gp = Inr (c1, gp1) \<and> glow_palette gp1 = glow_palette gp
           \<and> length (pulses gp1) \<le> Suc (length (pulses gp))
           \<and> (\<forall>p\<in>set (pulses gp1). ring_item p \<noteq> - 1)"
proof -
  let ?w = "max 1 (winfo_width c)" and ?h = "max 1 (winfo_height c)"
  let ?fg = "if kick_pending gp > 0
             then (let (u, g) = rng_random (glow_rng gp) in (u < 0.20, g))
             else (False, glow_rng gp)"
  let ?gp1 = "if fst ?fg
              then (let gp' = glow_spawn ?w ?h (kick_pending gp) (gp\<lparr>glow_rng := snd ?fg\<rparr>)
                    in gp'\<lparr>kick_pending := kick_pending gp' * 0.85\<rparr>)
              else (let (u', g2) = rng_random (snd ?fg)
                    in if u' < 0.01 then glow_spawn ?w ?h 0.22 (gp\<lparr>glow_rng := g2\<rparr>)
                       else gp\<lparr>glow_rng := g2\<rparr>)"
  have pal: "glow_palette ?gp1 = glow_palette gp"
    by (simp add: Let_def split_beta glow_spawn_palette)
  have len: "length (pulses ?gp1) \<le> Suc (length (pulses gp))"
    using glow_spawn_pulses[of ?w ?h "kick_pending gp" "gp\<lparr>glow_rng := snd ?fg\<rparr>"]
          glow_spawn_pulses[of ?w ?h "0.22" "gp\<lparr>glow_rng := snd (rng_random (snd ?fg))\<rparr>"]
    by (auto simp add: Let_def split_beta)
  have "glow_palette ?gp1 \<noteq> []" using pal assms by simp
  from glow_render_ok[OF this, of 0 "grow_alive (pulses ?gp1)" c]
  obtain ps c' where r: "glow_render 0 (glow_palette ?gp1) (grow_alive (pulses ?gp1)) c = Inr (ps, c')"
      "length ps = length (grow_alive (pulses ?gp1))" "\<forall>p\<in>set ps. ring_item p \<noteq> - 1"
    by blast
  have "glow_advance c gp = Inr (c', ?gp1\<lparr>pulses := ps\<rparr>)"
    using r(1) by (simp add: glow_advance_def Let_def split_beta)
  moreover have "length ps \<le> Suc (length (pulses gp))"
    using r(2) len grow_alive_length[of "pulses ?gp1"] by linarith
  ultimately show ?thesis using pal r(3) by simp
qed

lemma glow_step_ok:
  assumes "glow_palette gp \<noteq> []"
  shows "\<exists>c1 gp1 c2 gp2. glow_advance c gp = Inr (c1, gp1) \<and> glow_step c gp = Inr (c2, gp2)
           \<and> glow_palette gp2 = glow_palette gp
           \<and> length (pulses gp2) \<le> 8
           \<and> pulses gp1 = take (length (pulses gp1) - 8) (pulses gp1) @ pulses gp2
           \<and> (\<forall>p\<in>set (take (length (pulses gp1) - 8) (pulses gp1)).
                 ring_item p \<noteq> - 1 \<and> canvas_item c2 (ring_item p) = None)"
proof -
  obtain c1 gp1 where a: "glow_advance c gp = Inr (c1, gp1)" "glow_palette gp1 = glow_palette gp"
      "\<forall>p\<in>set (pulses gp1). ring_item p \<noteq> - 1"
    using glow_advance_ok[OF assms] by blast
  let ?k = "length (pulses gp1) - 8"
  have s: "glow_step c gp = Inr (glow_cap c1 gp1)" using a(1) by (simp add: glow_step_def)
  show ?thesis
  proof (cases "length (pulses gp1) > 8")
    case True
    let ?c2 = "delete_visuals (take ?k (pulses gp1)) c1"
    let ?gp2 = "gp1\<lparr>pulses := drop ?k (pulses gp1)\<rparr>"
    have "glow_step c gp = Inr (?c2, ?gp2)" using s True by (simp add: glow_cap_def)
    moreover have "\<forall>p\<in>set (take ?k (pulses gp1)). ring_item p \<noteq> - 1 \<and> canvas_item ?c2 (ring_item p) = None"
      using delete_visuals_deleted[of "take ?k (pulses gp1)" c1] a(3) by (meson in_set_takeD)
    moreover have "length (pulses ?gp2) \<le> 8" by simp
    moreover have "pulses gp1 = take ?k (pulses gp1) @ pulses ?gp2" by simp
    ultimately show ?thesis using a(1,2) by (intro exI[of _ c1] exI[of _ gp1] exI[of _ ?c2] exI[of _ ?gp2]) simp
  next
    case False
    then have "glow_step c gp = Inr (c1, gp1)" using s by (simp add: glow_cap_def)
    then show ?thesis using a(1,2) False by (intro exI[of _ c1] exI[of _ gp1]) simp
  qed
qed

lemma run_glow_ok:
  assumes "glow_palette gp \<noteq> []" "length (pulses gp) \<le> 8"
  shows "\<exists>c' gp'. run_glow evs (c, gp) = Inr (c', gp') \<and> glow_palette gp' = glow_palette gp
           \<and> length (pulses gp') \<le> 8"
  using assms
proof (induction evs arbitrary: c gp)
  case Nil
  then show ?case by simp
next
  case (Cons e evs)
  show ?case
  proof (cases e)
    case Glow_step
    obtain c2 gp2 where s: "glow_step c gp = Inr (c2, gp2)" "glow_palette gp2 = glow_palette gp"
        "length (pulses gp2) \<le> 8"
      using glow_step_ok[OF Cons.prems(1), of c] by blast
    have "glow_palette gp2 \<noteq> []" using s(2) Cons.prems(1) by simp
    from Cons.IH[OF this s(3), of c2] show ?thesis using Glow_step s(1,2) by simp
  next
    case (Kick strength)
    have "glow_palette (kick strength gp) \<noteq> []" "length (pulses (kick strength gp)) \<le> 8"
      using Cons.prems by (simp_all add: kick_def)
    from Cons.IH[OF this, of c] show ?thesis using Kick by (simp add: kick_def)
  next
    case (Glow_canvas_changed f)
    then show ?thesis using Cons.IH[OF Cons.prems, of "f c"] by simp
  qed
qed

lemma glow_pulse_init_facts:
  "glow_palette (glow_pulse_init pal g) = pal" "pulses (glow_pulse_init pal g) = []"
  by (simp_all add: glow_pulse_init_def kick_def)

lemma rng_random_sconst0: "rng_random (sconst 0) = (0, sconst 0)"
  by (simp add: rng_random_def)

lemma grow_alive_all:
  "\<forall>p\<in>set ps. life p > 0.02 \<Longrightarrow>
   grow_alive ps = map (\<lambda>p. p\<lparr>ring_r := ring_r p + vr p, life := life p - 0.02\<rparr>) ps"
  by (induction ps) (simp_all add: Let_def)

lemma glow_render_life:
  "glow_render i pal ps c = Inr (ps', c') \<Longrightarrow> map life ps' = map life ps"
proof (induction ps arbitrary: i c ps' c')
  case Nil
  then show ?case by simp
next
  case (Cons p ps)
  then show ?case
    by (auto simp add: Let_def split_beta split: if_splits sum.splits)
qed

lemma glow_advance_fire:
  assumes "glow_rng gp = sconst 0" "kick_pending gp > 0" "glow_palette gp \<noteq> []"
      "\<forall>p\<in>set (pulses gp). life p > 0.02 + m" "0 \<le> m" "m \<le> 0.6"
  shows "\<exists>c1 gp1. glow_advance c gp = Inr (c1, gp1)
           \<and> length (pulses gp1) = Suc (length (pulses gp))
           \<and> glow_rng gp1 = sconst 0 \<and> kick_pending gp1 > 0
           \<and> glow_palette gp1 = glow_palette gp
           \<and> (\<forall>p\<in>set (pulses gp1). life p > m)"
proof -
  let ?w = "max 1 (winfo_width c)" and ?h = "max 1 (winfo_height c)"
  let ?new = "\<lparr>cx = real_of_int ?w * 0.22, cy = real_of_int ?h * 0.28, ring_r = 6,
               vr = 1.6 + kick_pending gp * 3.2, life = 0.65 + kick_pending gp * 0.8,
               ring_item = - 1\<rparr>"
  let ?gp1 = "gp\<lparr>glow_rng := sconst 0, pulses := pulses gp @ [?new],
                 kick_pending := kick_pending gp * 0.85\<rparr>"
  have sp: "glow_spawn ?w ?h (kick_pending gp) (gp\<lparr>glow_rng := sconst 0\<rparr>)
              = gp\<lparr>glow_rng := sconst 0, pulses := pulses gp @ [?new]\<rparr>"
    by (simp add: glow_spawn_def rng_random_sconst0)
  have all: "\<forall>p\<in>set (pulses ?gp1). life p > 0.02"
    using assms(2,4,5) by auto
  have alive: "grow_alive (pulses ?gp1)
       = map (\<lambda>p. p\<lparr>ring_r := ring_r p + vr p, life := life p - 0.02\<rparr>) (pulses ?gp1)"
    using grow_alive_all[OF all] .
  have "glow_palette ?gp1 \<noteq> []" using assms(3) by simp
  from glow_render_ok[OF this, of 0 "grow_alive (pulses ?gp1)" c]
  obtain ps c' where r: "glow_render 0 (glow_palette ?gp1) (grow_alive (pulses ?gp1)) c = Inr (ps, c')"
      "length ps = length (grow_alive (pulses ?gp1))" by blast
  have lf: "map life ps = map life (grow_alive (pulses ?gp1))"
    using glow_render_life[OF r(1)] .
  have adv: "glow_advance c gp = Inr (c', ?gp1\<lparr>pulses := ps\<rparr>)"
    using r(1) assms(1,2) sp
    by (simp add: glow_advance_def Let_def rng_random_sconst0)
  have len: "length ps = Suc (length (pulses gp))"
    using r(2) alive by simp
  have "\<forall>x\<in>set (map life ps). x > m"
    unfolding lf alive using assms(2,4,6) by auto
  then have lives: "\<forall>p\<in>set ps. life p > m" by simp
  show ?thesis using adv len lives assms(2) by simp
qed

lemma run_glow_fire:
  assumes "glow_rng gp = sconst 0" "kick_pending gp > 0" "glow_palette gp \<noteq> []"
      "length (pulses gp) + n \<le> 8"
      "\<forall>p\<in>set (pulses gp). life p > real n / 50 + m" "0 \<le> m" "real n / 50 + m \<le> 3 / 5"
  shows "\<exists>c' gp'. run_glow (replicate n Glow_step) (c, gp) = Inr (c', gp')
           \<and> length (pulses gp') = length (pulses gp) + n
           \<and> glow_rng gp' = sconst 0 \<and> kick_pending gp' > 0
           \<and> glow_palette gp' = glow_palette gp
           \<and> (\<forall>p\<in>set (pulses gp'). life p > m)"
  using assms
proof (induction n arbitrary: c gp)
  case 0
  then show ?case by simp
next
  case (Suc n)
  have rs: "real (Suc n) / 50 + m = 1 / 50 + (real n / 50 + m)"
    by (simp add: add_divide_distrib)
  have a4: "\<forall>p\<in>set (pulses gp). life p > 0.02 + (real n / 50 + m)"
    using Suc.prems(5) unfolding rs by simp
  have a5: "0 \<le> real n / 50 + m" using Suc.prems(6) by simp
  have a6: "real n / 50 + m \<le> 0.6" using Suc.prems(7) unfolding rs by simp
  obtain c1 gp1 where s: "glow_advance c gp = Inr (c1, gp1)"
      "length (pulses gp1) = Suc (length (pulses gp))"
      "glow_rng gp1 = sconst 0" "kick_pending gp1 > 0" "glow_palette gp1 = glow_palette gp"
      "\<forall>p\<in>set (pulses gp1). life p > real n / 50 + m"
    using glow_advance_fire[OF Suc.prems(1,2,3) a4 a5 a6, of c] by blast
  have st: "glow_step c gp = Inr (c1, gp1)"
    using s(1,2) Suc.prems(4) by (simp add: glow_step_def glow_cap_def)
  have p3: "glow_palette gp1 \<noteq> []" using s(5) Suc.prems(3) by simp
  have p4: "length (pulses gp1) + n \<le> 8" using s(2) Suc.prems(4) by simp
  have a6': "real n / 50 + m \<le> 3 / 5" using a6 by simp
  obtain c' gp' where r: "run_glow (replicate n Glow_step) (c1, gp1) = Inr (c', gp')"
      "length (pulses gp') = length (pulses gp1) + n"
      "glow_rng gp' = sconst 0" "kick_pending gp' > 0" "glow_palette gp' = glow_palette gp1"
      "\<forall>p\<in>set (pulses gp'). life p > m"
    using Suc.IH[OF s(3,4) p3 p4 s(6) Suc.prems(6) a6', of c1] by blast
  have "run_glow (replicate (Suc n) Glow_step) (c, gp) = Inr (c', gp')"
    using st r(1) by simp
  moreover have "length (pulses gp') = length (pulses gp) + Suc n"
    using r(2) s(2) by simp
  moreover have "glow_palette gp' = glow_palette gp"
    using r(5) s(5) by simp
  ultimately show ?case using r(3,4,6) by blast
qed


subsection \<open>The application shell: auxiliary facts\<close>



lemma app_init_ok:
  assumes "particle_pal \<noteq> []"
  shows "\<exists>a. app_init now c particle_pal pulse_pal g1 g2 = Inr a
           \<and> pending (tk a) = [(1, 250, Tick), (2, 16, Frame)]
           \<and> tick_job a = Some 1 \<and> fx_job a = Some 2"
proof -
  obtain pf0 where "particle_field_init c particle_pal g1 = Inr pf0"
    using particle_field_init_ok[OF assms] by blast
  then show ?thesis
    by (simp add: app_init_def schedule_ticks_def schedule_fx_def tk_after_def Let_def)
qed


subsection \<open>The credits overlay: auxiliary facts\<close>

lemma canvas_item_update:
  "canvas_item (canvas_update i f c) j
     = (if j = i then map_option f (canvas_item c i) else canvas_item c j)"
  by (auto simp add: canvas_update_def canvas_item_def nth_list_update split: option.splits)

lemma canvas_item_create:
  "canvas_item (snd (canvas_create it c)) j
     = (if j = int (length (items c)) + 1 then Some it else canvas_item c j)"
  by (auto simp add: canvas_create_def canvas_item_def nth_append)

lemma canvas_item_fresh: "canvas_item c (int (length (items c)) + 1) = None"
  by (simp add: canvas_item_def)

lemma canvas_item_delete_tag:
  "canvas_item (canvas_delete_tag tg c) j
     = (case canvas_item c j of
          None \<Rightarrow> None
        | Some it \<Rightarrow> if tg = ''all'' \<or> tg \<in> set (tags it) then None else Some it)"
proof (cases "1 \<le> j \<and> j \<le> int (length (items c))")
  case True
  then have "nat (j - 1) < length (items c)" by linarith
  then show ?thesis using True
    by (simp add: canvas_delete_tag_def canvas_item_def)
next
  case False
  then show ?thesis by (auto simp add: canvas_delete_tag_def canvas_item_def)
qed

lemma line_text_delete_bg: "line_text (canvas_delete_tag ''bg'' c) i = line_text c i"
  by (simp add: line_text_def canvas_item_delete_tag split: option.splits)

lemma line_text_create_rectangle:
  "line_text c i = Some s \<Longrightarrow> line_text (snd (create_rectangle x0 y0 x1 y1 col tg c)) i = Some s"
  using canvas_item_fresh[of c]
  by (auto simp add: line_text_def create_rectangle_def canvas_item_create split: option.splits)

lemma coords_set_ok:
  "line_text c j = Some s' \<Longrightarrow>
   \<exists>c'. coords_set j x y c = Inr c' \<and> (\<forall>i. line_text c' i = line_text c i)
        \<and> coords_get j c' = [x, y]"
  by (auto simp add: coords_set_def coords_get_def line_text_def canvas_item_update
      split: option.splits if_splits)

lemma line_text_itemconfigure_fill: "line_text (itemconfigure_fill j col c) i = line_text c i"
  by (auto simp add: itemconfigure_fill_def line_text_def canvas_item_update split: option.splits)

lemma coords_get_itemconfigure_fill: "coords_get i (itemconfigure_fill j col c) = coords_get i c"
  by (auto simp add: itemconfigure_fill_def coords_get_def canvas_item_update split: option.splits)

lemma itemcget_line_text: "line_text c i = Some s \<Longrightarrow> itemcget_text i c = Inr s"
  by (auto simp add: itemcget_text_def line_text_def split: option.splits if_splits)

lemma itemconfigure_text_ok:
  "line_text c j = Some s \<Longrightarrow>
   \<exists>c'. itemconfigure_text j txt c = Inr c'
        \<and> (\<forall>i. line_text c' i = (if i = j then Some txt else line_text c i))"
  by (auto simp add: itemconfigure_text_def line_text_def canvas_item_update
      split: option.splits if_splits)

lemma mix_hex_ok:
  "hex_triple a = Inr x \<Longrightarrow> hex_triple b = Inr y \<Longrightarrow> \<exists>col. mix_hex a b t = Inr col"
  by (cases x, cases y) (simp add: mix_hex_def Let_def)

lemma paint_bands_ok:
  assumes "hex_triple (color_bg th) = Inr x" "hex_triple (color_bg2 th) = Inr y"
  shows "\<exists>c'. paint_bands i n w h t th c = Inr c'
            \<and> (\<forall>j s. line_text c j = Some s \<longrightarrow> line_text c' j = Some s)"
proof (induction n arbitrary: i c)
  case 0
  then show ?case by simp
next
  case (Suc n)
  let ?k = "0.08 + 0.06 * (1 + sin (t * 0.9 + real i * 0.6)) / 2"
  obtain col where m: "mix_hex (color_bg th) (color_bg2 th) ?k = Inr col"
    using mix_hex_ok[OF assms] by blast
  let ?c1 = "snd (create_rectangle 0 (real_of_int (py_int (real i * real_of_int h / 14)))
                 (real_of_int w) (real_of_int (py_int ((real i + 1) * real_of_int h / 14)))
                 col ''bg'' c)"
  obtain c' where r: "paint_bands (Suc i) n w h t th ?c1 = Inr c'"
      "\<forall>j s. line_text ?c1 j = Some s \<longrightarrow> line_text c' j = Some s"
    using Suc.IH by blast
  have "paint_bands i (Suc n) w h t th c = Inr c'"
    using m r(1) by (simp add: Let_def)
  moreover have "\<forall>j s. line_text c j = Some s \<longrightarrow> line_text c' j = Some s"
    using r(2) line_text_create_rectangle by blast
  ultimately show ?case by blast
qed

lemma paint_background_ok:
  assumes "hex_triple (color_bg (theme ov)) = Inr x" "hex_triple (color_bg2 (theme ov)) = Inr y"
  shows "\<exists>c'. paint_background w h t ov = Inr (ov\<lparr>scene := c'\<rparr>)
            \<and> (\<forall>j s. line_text (scene ov) j = Some s \<longrightarrow> line_text c' j = Some s)"
proof -
  obtain c' where "paint_bands 0 14 w h t (theme ov) (canvas_delete_tag ''bg'' (scene ov)) = Inr c'"
      "\<forall>j s. line_text (canvas_delete_tag ''bg'' (scene ov)) j = Some s \<longrightarrow> line_text c' j = Some s"
    using paint_bands_ok[OF assms] by blast
  then show ?thesis by (auto simp add: paint_background_def line_text_delete_bg)
qed

lemma animate_title_ok:
  assumes "title_id ov = Some tid" "sub_id ov = Some sid"
      "line_text (scene ov) tid = Some s1" "line_text (scene ov) sid = Some s2"
  shows "\<exists>c'. animate_title w h t ov = Inr (ov\<lparr>scene := c'\<rparr>)
            \<and> (\<forall>j. line_text c' j = line_text (scene ov) j)"
proof -
  let ?y = "py_int (real_of_int h * 0.18 + sin (t * 1.2) * 6)"
  obtain c1 where a: "coords_set tid (real_of_int (w div 2)) (real_of_int ?y) (scene ov) = Inr c1"
      "\<forall>i. line_text c1 i = line_text (scene ov) i"
    using coords_set_ok[OF assms(3)] by blast
  have "line_text c1 sid = Some s2" using a(2) assms(4) by simp
  then obtain c2 where b: "coords_set sid (real_of_int (w div 2)) (real_of_int (?y + 54)) c1 = Inr c2"
      "\<forall>i. line_text c2 i = line_text c1 i"
    using coords_set_ok by blast
  have "animate_title w h t ov = Inr (ov\<lparr>scene := c2\<rparr>)"
    using assms(1,2) a(1) b(1) by (simp add: animate_title_def Let_def)
  then show ?thesis using a(2) b(2) by auto
qed

lemma coords_get_coords_set:
  "coords_set j x y c = Inr c' \<Longrightarrow> i \<noteq> j \<Longrightarrow> coords_get i c' = coords_get i c"
  by (auto simp add: coords_set_def coords_get_def canvas_item_update split: option.splits if_splits)

lemma place_lines_ok:
  assumes "\<forall>i\<in>set cids. line_text c i \<noteq> None"
  shows "\<exists>c'. place_lines k cids x base c = Inr c'
            \<and> (\<forall>j. line_text c' j = line_text c j)
            \<and> (\<forall>i. i \<in> set cids \<or> length (coords_get i c) = 2 \<longrightarrow> length (coords_get i c') = 2)"
  using assms
proof (induction cids arbitrary: k c)
  case Nil
  then show ?case by simp
next
  case (Cons cid cids)
  obtain s where "line_text c cid = Some s" using Cons.prems by auto
  from coords_set_ok[OF this, of x "base + real k * 30"]
  obtain c1 where a: "coords_set cid x (base + real k * 30) c = Inr c1"
      "\<forall>i. line_text c1 i = line_text c i" "coords_get cid c1 = [x, base + real k * 30]"
    by blast
  have "\<forall>i\<in>set cids. line_text c1 i \<noteq> None" using a(2) Cons.prems by simp
  from Cons.IH[OF this, of "Suc k"]
  obtain c' where r: "place_lines (Suc k) cids x base c1 = Inr c'"
      "\<forall>j. line_text c' j = line_text c1 j"
      "\<forall>i. i \<in> set cids \<or> length (coords_get i c1) = 2 \<longrightarrow> length (coords_get i c') = 2"
    by blast
  have "place_lines k (cid # cids) x base c = Inr c'" using a(1) r(1) by simp
  moreover have "\<forall>j. line_text c' j = line_text c j" using a(2) r(2) by simp
  moreover have "\<forall>i. i \<in> set (cid # cids) \<or> length (coords_get i c) = 2
                   \<longrightarrow> length (coords_get i c') = 2"
  proof (intro allI impI)
    fix i assume h: "i \<in> set (cid # cids) \<or> length (coords_get i c) = 2"
    have "i \<in> set cids \<or> length (coords_get i c1) = 2"
    proof (cases "i = cid")
      case True
      then show ?thesis using a(3) by simp
    next
      case False
      then show ?thesis using h coords_get_coords_set[OF a(1) False] by auto
    qed
    then show "length (coords_get i c') = 2" using r(3) by blast
  qed
  ultimately show ?case by blast
qed

lemma fade_lines_ok:
  assumes "hex_triple (color_bg th) = Inr x" "hex_triple (color_muted th) = Inr z"
      "\<forall>i\<in>set cids. length (coords_get i c) = 2"
  shows "\<exists>c'. fade_lines cids th c = Inr c' \<and> (\<forall>j. line_text c' j = line_text c j)"
  using assms(3)
proof (induction cids arbitrary: c)
  case Nil
  then show ?case by simp
next
  case (Cons cid cids)
  have "length (coords_get cid c) = 2" using Cons.prems by simp
  then obtain u v where uv: "coords_get cid c = [u, v]"
    by (metis (no_types, opaque_lifting) One_nat_def Suc_1 length_0_conv length_Suc_conv)
  obtain col where m: "mix_hex (color_bg th) (color_muted th) (clamp ((v - 40) / 220) 0.0 1.0) = Inr col"
    using mix_hex_ok[OF assms(1,2)] by blast
  have "\<forall>i\<in>set cids. length (coords_get i (itemconfigure_fill cid col c)) = 2"
    using Cons.prems by (simp add: coords_get_itemconfigure_fill)
  from Cons.IH[OF this]
  obtain c' where r: "fade_lines cids th (itemconfigure_fill cid col c) = Inr c'"
      "\<forall>j. line_text c' j = line_text (itemconfigure_fill cid col c) j" by blast
  have "fade_lines (cid # cids) th c = Inr c'" using uv m r(1) by (simp add: Let_def)
  then show ?case using r(2) by (simp add: line_text_itemconfigure_fill)
qed

lemma scroll_credits_ok:
  assumes "hex_triple (color_bg (theme ov)) = Inr x" "hex_triple (color_muted (theme ov)) = Inr z"
      "\<forall>i\<in>set (scroll_ids ov). line_text (scene ov) i \<noteq> None"
  shows "\<exists>c'. scroll_credits w h t ov = Inr (ov\<lparr>scene := c'\<rparr>)
            \<and> (\<forall>j. line_text c' j = line_text (scene ov) j)"
proof -
  let ?base = "real_of_int (h + 120) - t * 46"
  obtain c1 where a: "place_lines 0 (scroll_ids ov) (real_of_int (w div 2)) ?base (scene ov) = Inr c1"
      "\<forall>j. line_text c1 j = line_text (scene ov) j"
      "\<forall>i. i \<in> set (scroll_ids ov) \<or> length (coords_get i (scene ov)) = 2
           \<longrightarrow> length (coords_get i c1) = 2"
    using place_lines_ok[OF assms(3)] by blast
  have "\<forall>i\<in>set (scroll_ids ov). length (coords_get i c1) = 2" using a(3) by blast
  from fade_lines_ok[OF assms(1,2) this]
  obtain c2 where b: "fade_lines (scroll_ids ov) (theme ov) c1 = Inr c2"
      "\<forall>j. line_text c2 j = line_text c1 j" by blast
  have "scroll_credits w h t ov = Inr (ov\<lparr>scene := c2\<rparr>)"
    using a(1) b(1) by (simp add: scroll_credits_def Let_def)
  then show ?thesis using a(2) b(2) by auto
qed

lemma credits_lines_length: "length credits_lines = 15"
  by (simp add: credits_lines_def)

lemma py_strip_redacted: "py_strip redacted = redacted"
  by (simp add: py_strip_def redacted_def ascii_def py_isspace_def)

lemma credits_lines_others:
  "\<forall>s\<in>set (take 12 credits_lines) \<union> set (drop 13 credits_lines). py_strip s \<noteq> redacted"
  by (simp add: credits_lines_def py_strip_def redacted_def ascii_def py_isspace_def)

lemma reveal_scan_none:
  "\<forall>i\<in>set cids. \<exists>s. line_text (scene ov) i = Some s \<and> py_strip s \<noteq> redacted \<Longrightarrow>
   reveal_scan cids ov = Inr ov"
proof (induction cids)
  case Nil
  then show ?case by simp
next
  case (Cons cid cids)
  obtain s where "line_text (scene ov) cid = Some s" "py_strip s \<noteq> redacted"
    using Cons.prems by auto
  then show ?case using Cons itemcget_line_text[of "scene ov" cid s] by simp
qed

lemma reveal_scan_hit:
  assumes "\<forall>i\<in>set pre. \<exists>s. line_text (scene ov) i = Some s \<and> py_strip s \<noteq> redacted"
      "line_text (scene ov) cid = Some s" "py_strip s = redacted"
  shows "\<exists>c'. reveal_scan (pre @ cid # post) ov
                = Inr (ov\<lparr>scene := c', reveals := Suc (reveals ov)\<rparr>)
            \<and> (\<forall>i. line_text c' i
                  = (if i = cid then Some (author_line (author_first ov) (author_last ov))
                     else line_text (scene ov) i))"
  using assms(1)
proof (induction pre)
  case Nil
  obtain c' where "itemconfigure_text cid (author_line (author_first ov) (author_last ov)) (scene ov) = Inr c'"
      "\<forall>i. line_text c' i = (if i = cid then Some (author_line (author_first ov) (author_last ov))
                             else line_text (scene ov) i)"
    using itemconfigure_text_ok[OF assms(2)] by blast
  then show ?case using assms(2,3) itemcget_line_text[OF assms(2)]
    by (intro exI[of _ c']) simp
next
  case (Cons a pre)
  obtain s' where "line_text (scene ov) a = Some s'" "py_strip s' \<noteq> redacted"
    using Cons.prems by auto
  then show ?case using Cons itemcget_line_text[of "scene ov" a s'] by simp
qed

lemma colors_parseD:
  assumes "colors_parse th"
  shows "\<exists>x y z. hex_triple (color_bg th) = Inr x \<and> hex_triple (color_bg2 th) = Inr y
           \<and> hex_triple (color_muted th) = Inr z"
  using assms by (auto simp add: colors_parse_def split: sum.splits)

text \<open>The part of a frame before the reveal keeps every line.\<close>

lemma loop_prefix_ok:
  assumes "scene_inv ov x"
  shows "\<exists>c3. (case paint_background w h t ov of Inl e \<Rightarrow> Inl e
               | Inr ov1 \<Rightarrow> (case animate_title w h t ov1 of Inl e \<Rightarrow> Inl e
                   | Inr ov2 \<Rightarrow> scroll_credits w h t ov2)) = Inr (ov\<lparr>scene := c3\<rparr>)
             \<and> (\<forall>j s. line_text (scene ov) j = Some s \<longrightarrow> line_text c3 j = Some s)"
proof -
  obtain x' y' z' where col: "hex_triple (color_bg (theme ov)) = Inr x'"
      "hex_triple (color_bg2 (theme ov)) = Inr y'" "hex_triple (color_muted (theme ov)) = Inr z'"
    using assms colors_parseD unfolding scene_inv_def by blast
  obtain tid s1 sid s2 where ids: "title_id ov = Some tid" "line_text (scene ov) tid = Some s1"
      "sub_id ov = Some sid" "line_text (scene ov) sid = Some s2"
    using assms unfolding scene_inv_def by blast
  have lines: "\<forall>i\<in>set (scroll_ids ov). line_text (scene ov) i \<noteq> None"
  proof
    fix i assume "i \<in> set (scroll_ids ov)"
    then have "line_text (scene ov) i \<in> set (map (line_text (scene ov)) (scroll_ids ov))" by simp
    then have "line_text (scene ov) i \<in> set (map Some (credits_lines[12 := x]))"
      using assms unfolding scene_inv_def by simp
    then show "line_text (scene ov) i \<noteq> None" by auto
  qed
  obtain c1 where p: "paint_background w h t ov = Inr (ov\<lparr>scene := c1\<rparr>)"
      "\<forall>j s. line_text (scene ov) j = Some s \<longrightarrow> line_text c1 j = Some s"
    using paint_background_ok[OF col(1,2)] by blast
  let ?ov1 = "ov\<lparr>scene := c1\<rparr>"
  have "title_id ?ov1 = Some tid" "sub_id ?ov1 = Some sid"
      "line_text (scene ?ov1) tid = Some s1" "line_text (scene ?ov1) sid = Some s2"
    using ids p(2) by simp_all
  from animate_title_ok[OF this, of w h t]
  obtain c2 where a: "animate_title w h t ?ov1 = Inr (?ov1\<lparr>scene := c2\<rparr>)"
      "\<forall>j. line_text c2 j = line_text c1 j" by auto
  let ?ov2 = "ov\<lparr>scene := c2\<rparr>"
  have ov2: "?ov1\<lparr>scene := c2\<rparr> = ?ov2" by simp
  have "hex_triple (color_bg (theme ?ov2)) = Inr x'" "hex_triple (color_muted (theme ?ov2)) = Inr z'"
      "\<forall>i\<in>set (scroll_ids ?ov2). line_text (scene ?ov2) i \<noteq> None"
    using col lines p(2) a(2) by auto
  from scroll_credits_ok[OF this, of w h t]
  obtain c3 where s: "scroll_credits w h t ?ov2 = Inr (?ov2\<lparr>scene := c3\<rparr>)"
      "\<forall>j. line_text c3 j = line_text c2 j" by auto
  have "?ov2\<lparr>scene := c3\<rparr> = ov\<lparr>scene := c3\<rparr>" by simp
  then have "(case paint_background w h t ov of Inl e \<Rightarrow> Inl e
               | Inr ov1 \<Rightarrow> (case animate_title w h t ov1 of Inl e \<Rightarrow> Inl e
                   | Inr ov2 \<Rightarrow> scroll_credits w h t ov2)) = Inr (ov\<lparr>scene := c3\<rparr>)"
    using p(1) a(1) s(1) ov2 by simp
  moreover have "\<forall>j s. line_text (scene ov) j = Some s \<longrightarrow> line_text c3 j = Some s"
    using p(2) a(2) s(2) by simp
  ultimately show ?thesis by blast
qed

lemma scene_inv_lines:
  assumes "scene_inv ov x"
  shows "length (scroll_ids ov) = 15"
    and "\<And>k. k < 15 \<Longrightarrow> line_text (scene ov) (scroll_ids ov ! k) = Some ((credits_lines[12 := x]) ! k)"
proof -
  have m: "map (line_text (scene ov)) (scroll_ids ov) = map Some (credits_lines[12 := x])"
    using assms unfolding scene_inv_def by blast
  have "length (map (line_text (scene ov)) (scroll_ids ov)) = length (map Some (credits_lines[12 := x]))"
    using m by simp
  then show len: "length (scroll_ids ov) = 15" by (simp add: credits_lines_length)
  fix k :: nat assume k: "k < 15"
  have "map (line_text (scene ov)) (scroll_ids ov) ! k = map Some (credits_lines[12 := x]) ! k"
    using m by simp
  then show "line_text (scene ov) (scroll_ids ov ! k) = Some ((credits_lines[12 := x]) ! k)"
    using k len by (simp add: credits_lines_length)
qed

lemma other_lines_not_redacted:
  assumes "k < 15" "k \<noteq> 12"
  shows "py_strip ((credits_lines[12 := x]) ! k) \<noteq> redacted"
proof -
  have eq: "(credits_lines[12 := x]) ! k = credits_lines ! k" using assms(2) by simp
  have "credits_lines ! k \<in> set (take 12 credits_lines) \<union> set (drop 13 credits_lines)"
  proof (cases "k < 12")
    case True
    then have "credits_lines ! k = take 12 credits_lines ! k" by simp
    moreover have "k < length (take 12 credits_lines)" using True by (simp add: credits_lines_length)
    ultimately show ?thesis by (metis UnI1 nth_mem)
  next
    case False
    then have k13: "13 \<le> k" using assms(2) by simp
    then have "credits_lines ! k = drop 13 credits_lines ! (k - 13)"
      using assms(1) by (simp add: credits_lines_length)
    moreover have "k - 13 < length (drop 13 credits_lines)"
      using assms(1) k13 by (simp add: credits_lines_length)
    ultimately show ?thesis by (metis UnI2 nth_mem)
  qed
  then show ?thesis using credits_lines_others eq by auto
qed

lemma loop_ok:
  fixes now :: real and ov :: credits_overlay and x :: ustr
  assumes inv: "scene_inv ov x"
  defines "keep \<equiv> (now - t0 ov) * 1000 < real_of_int (reveal_delay_ms ov)
                  \<or> py_strip x \<noteq> redacted"
  shows "\<exists>ov'. loop now ww wh ov = Inr ov'
    \<and> scene_inv ov' (if keep then x else author_line (author_first ov) (author_last ov))
    \<and> reveals ov' = (if keep then reveals ov else Suc (reveals ov))
    \<and> t0 ov' = t0 ov \<and> reveal_delay_ms ov' = reveal_delay_ms ov
    \<and> author_first ov' = author_first ov \<and> author_last ov' = author_last ov
    \<and> scroll_ids ov' = scroll_ids ov \<and> close_callbacks ov' = close_callbacks ov"
proof -
  let ?t = "now - t0 ov" and ?w = "max 1 ww" and ?h = "max 1 wh"
  let ?a = "author_line (author_first ov) (author_last ov)"
  have run: "running ov" "window ov \<noteq> Destroyed" using inv unfolding scene_inv_def by simp_all
  obtain c3 where pre: "(case paint_background ?w ?h ?t ov of Inl e \<Rightarrow> Inl e
               | Inr ov1 \<Rightarrow> (case animate_title ?w ?h ?t ov1 of Inl e \<Rightarrow> Inl e
                   | Inr ov2 \<Rightarrow> scroll_credits ?w ?h ?t ov2)) = Inr (ov\<lparr>scene := c3\<rparr>)"
      and keep3: "\<forall>j s. line_text (scene ov) j = Some s \<longrightarrow> line_text c3 j = Some s"
    using loop_prefix_ok[OF inv] by blast
  let ?ov3 = "ov\<lparr>scene := c3\<rparr>"
  have len: "length (scroll_ids ov) = 15" using scene_inv_lines(1)[OF inv] .
  have l3: "line_text c3 (scroll_ids ov ! k) = Some ((credits_lines[12 := x]) ! k)" if "k < 15" for k
    using scene_inv_lines(2)[OF inv that] keep3 by simp
  have dist: "distinct (scroll_ids ov)" using inv unfolding scene_inv_def by simp
  \<comment> \<open>the reveal\<close>
  have rev: "\<exists>c4. reveal_author_if_needed ?t ?ov3
                = Inr (ov\<lparr>scene := c4, reveals := (if keep then reveals ov else Suc (reveals ov))\<rparr>)
            \<and> (\<forall>j s. j \<notin> set (scroll_ids ov) \<longrightarrow> line_text c3 j = Some s \<longrightarrow> line_text c4 j = Some s)
            \<and> (\<forall>k<15. line_text c4 (scroll_ids ov ! k)
                  = Some ((credits_lines[12 := (if keep then x else ?a)]) ! k))"
  proof (cases "?t * 1000 < real_of_int (reveal_delay_ms ov)")
    case True
    then have "keep" by (simp add: keep_def)
    moreover have "reveal_author_if_needed ?t ?ov3 = Inr ?ov3"
      using True by (simp add: reveal_author_if_needed_def)
    moreover have "?ov3 = ov\<lparr>scene := c3, reveals := reveals ov\<rparr>" by simp
    ultimately show ?thesis using l3 by (intro exI[of _ c3]) simp
  next
    case late: False
    show ?thesis
    proof (cases "py_strip x = redacted")
      case True
      then have nk: "\<not> keep" using late by (simp add: keep_def)
      have split: "scroll_ids ov = take 12 (scroll_ids ov) @ (scroll_ids ov ! 12) # drop 13 (scroll_ids ov)"
        using id_take_nth_drop[of 12 "scroll_ids ov"] len by simp
      have p1: "\<forall>i\<in>set (take 12 (scroll_ids ov)).
                  \<exists>s. line_text (scene ?ov3) i = Some s \<and> py_strip s \<noteq> redacted"
      proof
        fix i assume "i \<in> set (take 12 (scroll_ids ov))"
        then obtain k where k: "k < 12" "i = scroll_ids ov ! k"
          using len by (auto simp add: in_set_conv_nth)
        then have "line_text c3 i = Some ((credits_lines[12 := x]) ! k)" using l3[of k] by simp
        moreover have "py_strip ((credits_lines[12 := x]) ! k) \<noteq> redacted"
          using other_lines_not_redacted[of k x] k(1) by simp
        ultimately show "\<exists>s. line_text (scene ?ov3) i = Some s \<and> py_strip s \<noteq> redacted" by simp
      qed
      have p2: "line_text (scene ?ov3) (scroll_ids ov ! 12) = Some x"
        using l3[of 12] by (simp add: credits_lines_length)
      from reveal_scan_hit[OF p1 p2 True, of "drop 13 (scroll_ids ov)"]
      obtain c4 where h: "reveal_scan (scroll_ids ov) ?ov3
                            = Inr (?ov3\<lparr>scene := c4, reveals := Suc (reveals ?ov3)\<rparr>)"
          "\<forall>i. line_text c4 i = (if i = scroll_ids ov ! 12 then Some ?a else line_text c3 i)"
        using split by auto
      have "reveal_author_if_needed ?t ?ov3 = Inr (ov\<lparr>scene := c4, reveals := Suc (reveals ov)\<rparr>)"
        using late h(1) by (simp add: reveal_author_if_needed_def)
      moreover have "\<forall>j s. j \<notin> set (scroll_ids ov) \<longrightarrow> line_text c3 j = Some s \<longrightarrow> line_text c4 j = Some s"
      proof (intro allI impI)
        fix j s assume "j \<notin> set (scroll_ids ov)" "line_text c3 j = Some s"
        moreover have "scroll_ids ov ! 12 \<in> set (scroll_ids ov)" using len by simp
        ultimately show "line_text c4 j = Some s" using h(2) by auto
      qed
      moreover have "\<forall>k<15. line_text c4 (scroll_ids ov ! k) = Some ((credits_lines[12 := ?a]) ! k)"
      proof (intro allI impI)
        fix k :: nat assume k: "k < 15"
        show "line_text c4 (scroll_ids ov ! k) = Some ((credits_lines[12 := ?a]) ! k)"
        proof (cases "k = 12")
          case True
          then show ?thesis using h(2) by (simp add: credits_lines_length)
        next
          case False
          then have "scroll_ids ov ! k \<noteq> scroll_ids ov ! 12"
            using dist k len by (simp add: nth_eq_iff_index_eq)
          then show ?thesis using h(2) l3[OF k] False by simp
        qed
      qed
      ultimately show ?thesis using nk by (intro exI[of _ c4]) simp
    next
      case False
      then have k: "keep" by (simp add: keep_def)
      have sx: "py_strip x \<noteq> redacted" using False by simp
      have "\<forall>i\<in>set (scroll_ids ov). \<exists>s. line_text (scene ?ov3) i = Some s \<and> py_strip s \<noteq> redacted"
      proof
        fix i assume "i \<in> set (scroll_ids ov)"
        then obtain n where n: "n < 15" "i = scroll_ids ov ! n"
          using len by (auto simp add: in_set_conv_nth)
        have "py_strip ((credits_lines[12 := x]) ! n) \<noteq> redacted"
        proof (cases "n = 12")
          case True
          then show ?thesis using sx by (simp add: credits_lines_length)
        next
          case False
          then show ?thesis using other_lines_not_redacted[OF n(1)] by simp
        qed
        then show "\<exists>s. line_text (scene ?ov3) i = Some s \<and> py_strip s \<noteq> redacted"
          using l3[OF n(1)] n(2) by simp
      qed
      then have "reveal_scan (scroll_ids ov) ?ov3 = Inr ?ov3"
        using reveal_scan_none[of "scroll_ids ov" ?ov3] by simp
      then have "reveal_author_if_needed ?t ?ov3 = Inr ?ov3"
        by (simp add: reveal_author_if_needed_def)
      moreover have "?ov3 = ov\<lparr>scene := c3, reveals := reveals ov\<rparr>" by simp
      ultimately show ?thesis using k l3 by (intro exI[of _ c3]) simp
    qed
  qed
  then obtain c4 where r: "reveal_author_if_needed ?t ?ov3
                = Inr (ov\<lparr>scene := c4, reveals := (if keep then reveals ov else Suc (reveals ov))\<rparr>)"
      and r_other: "\<forall>j s. j \<notin> set (scroll_ids ov) \<longrightarrow> line_text c3 j = Some s \<longrightarrow> line_text c4 j = Some s"
      and r_lines: "\<forall>k<15. line_text c4 (scroll_ids ov ! k)
                  = Some ((credits_lines[12 := (if keep then x else ?a)]) ! k)"
    by blast
  let ?ov4 = "ov\<lparr>scene := c4, reveals := (if keep then reveals ov else Suc (reveals ov))\<rparr>"
  let ?ov5 = "?ov4\<lparr>job := Some (Suc (issued (overlay_timers ov))),
                  overlay_timers := snd (tk_after 16 Credits_loop (overlay_timers ov))\<rparr>"
  have lp: "loop now ww wh ov = Inr ?ov5"
  proof -
    obtain ov1 where o1: "paint_background ?w ?h ?t ov = Inr ov1"
      using pre by (cases "paint_background ?w ?h ?t ov") simp_all
    obtain ov2 where o2: "animate_title ?w ?h ?t ov1 = Inr ov2"
      using pre o1 by (cases "animate_title ?w ?h ?t ov1") simp_all
    have o3: "scroll_credits ?w ?h ?t ov2 = Inr ?ov3" using pre o1 o2 by simp
    show ?thesis
      using run o1 o2 o3 r by (simp add: loop_def Let_def tk_after_def)
  qed
  have map5: "map (line_text c4) (scroll_ids ov)
                = map Some (credits_lines[12 := (if keep then x else ?a)])"
    by (rule nth_equalityI) (use len r_lines in \<open>simp_all add: credits_lines_length\<close>)
  have title5: "\<exists>tid s. title_id ov = Some tid \<and> line_text c4 tid = Some s"
  proof -
    obtain tid s where t: "title_id ov = Some tid" "line_text (scene ov) tid = Some s"
      using inv unfolding scene_inv_def by blast
    then have t3: "line_text c3 tid = Some s" using keep3 by simp
    show ?thesis
    proof (cases "tid \<in> set (scroll_ids ov)")
      case True
      then obtain k where "k < 15" "tid = scroll_ids ov ! k"
        using len by (auto simp add: in_set_conv_nth)
      then show ?thesis using r_lines t(1) by auto
    next
      case False
      then show ?thesis using r_other t3 t(1) by blast
    qed
  qed
  have sub5: "\<exists>sid s. sub_id ov = Some sid \<and> line_text c4 sid = Some s"
  proof -
    obtain sid s where t: "sub_id ov = Some sid" "line_text (scene ov) sid = Some s"
      using inv unfolding scene_inv_def by blast
    then have t3: "line_text c3 sid = Some s" using keep3 by simp
    show ?thesis
    proof (cases "sid \<in> set (scroll_ids ov)")
      case True
      then obtain k where "k < 15" "sid = scroll_ids ov ! k"
        using len by (auto simp add: in_set_conv_nth)
      then show ?thesis using r_lines t(1) by auto
    next
      case False
      then show ?thesis using r_other t3 t(1) by blast
    qed
  qed
  have "scene_inv ?ov5 (if keep then x else ?a)"
    unfolding scene_inv_def using inv map5 title5 sub5 by (simp add: scene_inv_def)
  then show ?thesis using lp by simp
qed

lemma setup_scene_init:
  assumes "colors_parse th"
  shows "scene_inv (setup_scene ww wh
           ((credits_overlay_init th company first_name last_name d w h tm)
              \<lparr>window := Shown, grab := True, running := True, t0 := now0\<rparr>)) redacted"
  using assms
  by (simp add: scene_inv_def setup_scene_def credits_overlay_init_def create_text_def
      canvas_create_def canvas_delete_tag_def line_text_def canvas_item_def Let_def
      credits_lines_def redacted_def)

lemma setup_scene_fields:
  "t0 (setup_scene ww wh ov) = t0 ov" "reveal_delay_ms (setup_scene ww wh ov) = reveal_delay_ms ov"
  "author_first (setup_scene ww wh ov) = author_first ov"
  "author_last (setup_scene ww wh ov) = author_last ov"
  "reveals (setup_scene ww wh ov) = reveals ov"
  "close_callbacks (setup_scene ww wh ov) = close_callbacks ov"
  by (simp_all add: setup_scene_def Let_def split_beta)

text \<open>
  What a run of frames leaves: the author line is revealed if it was before or if one of
  the frames came late enough.
\<close>

lemma scene_inv_timer_fired: "scene_inv (timer_fired ov) x = scene_inv ov x"
  by (simp add: timer_fired_def scene_inv_def split: option.split)

lemma timer_fired_fields:
  "t0 (timer_fired ov) = t0 ov" "reveal_delay_ms (timer_fired ov) = reveal_delay_ms ov"
  "author_first (timer_fired ov) = author_first ov" "author_last (timer_fired ov) = author_last ov"
  "reveals (timer_fired ov) = reveals ov" "close_callbacks (timer_fired ov) = close_callbacks ov"
  by (simp_all add: timer_fired_def split: option.split)

lemma frames_ok:
  fixes ov :: credits_overlay
  assumes "scene_inv ov x"
    and "py_strip (author_line (author_first ov) (author_last ov)) \<noteq> redacted"
    and "(x = redacted \<and> reveals ov = 0)
         \<or> (x = author_line (author_first ov) (author_last ov) \<and> reveals ov = 1)"
  shows "\<exists>ov' x'. frames rest ov = Inr ov' \<and> scene_inv ov' x'
    \<and> t0 ov' = t0 ov \<and> reveal_delay_ms ov' = reveal_delay_ms ov
    \<and> author_first ov' = author_first ov \<and> author_last ov' = author_last ov
    \<and> close_callbacks ov' = close_callbacks ov
    \<and> (if x \<noteq> redacted
           \<or> (\<exists>r\<in>set rest. \<not> (fst r - t0 ov) * 1000 < real_of_int (reveal_delay_ms ov))
        then x' = author_line (author_first ov) (author_last ov) \<and> reveals ov' = 1
        else x' = redacted \<and> reveals ov' = 0)"
  using assms
proof (induction rest arbitrary: ov x)
  case Nil
  have "author_line (author_first ov) (author_last ov) \<noteq> redacted"
    using Nil(2) py_strip_redacted by auto
  then show ?case using Nil by (intro exI[of _ ov] exI[of _ x]) auto
next
  case (Cons r rest)
  obtain now ww wh where r: "r = (now, ww, wh)" by (cases r)
  let ?a = "author_line (author_first ov) (author_last ov)"
  let ?keep = "(now - t0 ov) * 1000 < real_of_int (reveal_delay_ms ov) \<or> x \<noteq> redacted"
  have x: "x = redacted \<or> py_strip x \<noteq> redacted" using Cons.prems(2,3) by auto
  have ne: "?a \<noteq> redacted" using Cons.prems(2) py_strip_redacted by auto
  have inv': "scene_inv (timer_fired ov) x"
    using Cons.prems(1) by (simp add: scene_inv_timer_fired)
  let ?f = "timer_fired ov"
  let ?keepf = "(now - t0 ?f) * 1000 < real_of_int (reveal_delay_ms ?f)
                  \<or> py_strip x \<noteq> redacted"
  have kx: "(py_strip x \<noteq> redacted) = (x \<noteq> redacted)"
    using x py_strip_redacted by auto
  obtain ov1 where lf: "loop now ww wh ?f = Inr ov1"
      "scene_inv ov1 (if ?keepf then x else author_line (author_first ?f) (author_last ?f))"
      "reveals ov1 = (if ?keepf then reveals ?f else Suc (reveals ?f))"
      "t0 ov1 = t0 ?f" "reveal_delay_ms ov1 = reveal_delay_ms ?f"
      "author_first ov1 = author_first ?f" "author_last ov1 = author_last ?f"
      "close_callbacks ov1 = close_callbacks ?f"
    using loop_ok[OF inv', of now ww wh] by blast
  have l: "loop now ww wh ?f = Inr ov1"
      "scene_inv ov1 (if ?keep then x else ?a)"
      "reveals ov1 = (if ?keep then reveals ov else Suc (reveals ov))"
      "t0 ov1 = t0 ov" "reveal_delay_ms ov1 = reveal_delay_ms ov"
      "author_first ov1 = author_first ov" "author_last ov1 = author_last ov"
      "close_callbacks ov1 = close_callbacks ov"
    using lf kx unfolding timer_fired_fields by simp_all
  let ?x1 = "if ?keep then x else ?a"
  have a1: "py_strip (author_line (author_first ov1) (author_last ov1)) \<noteq> redacted"
    using Cons.prems(2) l(6,7) by simp
  have s1: "(?x1 = redacted \<and> reveals ov1 = 0)
         \<or> (?x1 = author_line (author_first ov1) (author_last ov1) \<and> reveals ov1 = 1)"
    using Cons.prems(3) l(3,6,7) ne by auto
  obtain ov' x' where f: "frames rest ov1 = Inr ov'" "scene_inv ov' x'"
      "t0 ov' = t0 ov1" "reveal_delay_ms ov' = reveal_delay_ms ov1"
      "author_first ov' = author_first ov1" "author_last ov' = author_last ov1"
      "close_callbacks ov' = close_callbacks ov1"
      "(if ?x1 \<noteq> redacted
           \<or> (\<exists>r\<in>set rest. \<not> (fst r - t0 ov1) * 1000 < real_of_int (reveal_delay_ms ov1))
        then x' = author_line (author_first ov1) (author_last ov1) \<and> reveals ov' = 1
        else x' = redacted \<and> reveals ov' = 0)"
    using Cons.IH[OF l(2) a1 s1] by blast
  have fr: "frames (r # rest) ov = Inr ov'" using r l(1) f(1) by simp
  have cond: "(?x1 \<noteq> redacted
           \<or> (\<exists>r\<in>set rest. \<not> (fst r - t0 ov1) * 1000 < real_of_int (reveal_delay_ms ov1)))
        \<longleftrightarrow> (x \<noteq> redacted
           \<or> (\<exists>r\<in>set (r # rest). \<not> (fst r - t0 ov) * 1000 < real_of_int (reveal_delay_ms ov)))"
    using r l(4,5) ne by auto
  have fin: "(if x \<noteq> redacted
           \<or> (\<exists>r\<in>set (r # rest). \<not> (fst r - t0 ov) * 1000 < real_of_int (reveal_delay_ms ov))
        then x' = author_line (author_first ov) (author_last ov) \<and> reveals ov' = 1
        else x' = redacted \<and> reveals ov' = 0)"
    using f(8) l(6,7) unfolding cond by simp
  show ?case
    using fr f(2) fin f(3,4,5,6,7) l(4,5,6,7,8)
    by (intro exI[of _ ov'] exI[of _ x']) simp
qed

lemma session_ok:
  assumes "colors_parse th" "py_strip (author_line first_name last_name) \<noteq> redacted" "rs \<noteq> []"
  shows "\<exists>ov x. session now0 rs (credits_overlay_init th company first_name last_name d w h tm) = Inr ov
    \<and> scene_inv ov x \<and> close_callbacks ov = 0
    \<and> (if \<exists>r\<in>set rs. \<not> (fst r - now0) * 1000 < real_of_int d
        then x = author_line first_name last_name \<and> reveals ov = 1
        else x = redacted \<and> reveals ov = 0)"
proof -
  obtain now1 ww wh rest where rs: "rs = (now1, ww, wh) # rest"
    using assms(3) by (cases rs) auto
  let ?ov0 = "credits_overlay_init th company first_name last_name d w h tm"
  let ?ovS = "setup_scene ww wh (?ov0\<lparr>window := Shown, grab := True, running := True, t0 := now0\<rparr>)"
  have inv: "scene_inv ?ovS redacted" using setup_scene_init[OF assms(1)] .
  have fld: "t0 ?ovS = now0" "reveal_delay_ms ?ovS = d" "author_first ?ovS = first_name"
      "author_last ?ovS = last_name" "reveals ?ovS = 0" "close_callbacks ?ovS = 0"
    by (simp_all add: setup_scene_fields credits_overlay_init_def)
  have tf: "timer_fired ?ovS = ?ovS"
    by (simp add: timer_fired_def setup_scene_def credits_overlay_init_def Let_def split_beta)
  have sh: "session now0 rs ?ov0 = frames rs ?ovS"
    using tf by (simp add: rs overlay_show_def credits_overlay_init_def)
  have a: "py_strip (author_line (author_first ?ovS) (author_last ?ovS)) \<noteq> redacted"
    using assms(2) fld by simp
  have s: "(redacted = redacted \<and> reveals ?ovS = 0)
         \<or> (redacted = author_line (author_first ?ovS) (author_last ?ovS) \<and> reveals ?ovS = 1)"
    using fld by simp
  obtain ov' x' where f: "frames rs ?ovS = Inr ov'" "scene_inv ov' x'"
      "close_callbacks ov' = close_callbacks ?ovS"
      "(if redacted \<noteq> redacted
           \<or> (\<exists>r\<in>set rs. \<not> (fst r - t0 ?ovS) * 1000 < real_of_int (reveal_delay_ms ?ovS))
        then x' = author_line (author_first ?ovS) (author_last ?ovS) \<and> reveals ov' = 1
        else x' = redacted \<and> reveals ov' = 0)"
    using frames_ok[OF inv a s, of rs] by blast
  show ?thesis
    using f sh fld by (intro exI[of _ ov'] exI[of _ x']) simp
qed





lemma theme_colors_parse: "colors_parse theme_colors"
  by (simp add: colors_parse_def theme_colors_def hex_triple_def py_int16_def hex_value_def
      int_space_def Let_def)

lemma alex_dubois_line: "py_strip (author_line (ascii ''Alex'') (ascii ''Dubois'')) \<noteq> redacted"
  by (simp add: py_strip_def author_line_def redacted_def ascii_def py_isspace_def)


subsection \<open>The particle field: the cap of 160\<close>

text \<open>
  C3. A particle field is constructed and then lives through any sequence of frames,
  boosts and canvas changes. After it the list holds at most 160 particles. In the step
  that follows, the list as it stands before the cap is the evicted particles followed
  by the list the step leaves, which again holds at most 160: the particles removed are
  the ones at the front, the oldest. Each of them had a visual, and that visual is no
  longer on the canvas.
\<close>

theorem particle_pool_capped:
  assumes "pal \<noteq> []"
  shows "\<exists>pf0. particle_field_init c0 pal g = Inr pf0 \<and>
     (\<forall>evs. \<exists>c pf c1 pf1 c2 pf2.
        run_field evs (c0, pf0) = Inr (c, pf) \<and> length (particles pf) \<le> 160 \<and>
        step_advance c pf = Inr (c1, pf1) \<and> step c pf = Inr (c2, pf2) \<and>
        length (particles pf2) \<le> 160 \<and>
        particles pf1 = take (length (particles pf1) - 160) (particles pf1) @ particles pf2 \<and>
        (\<forall>p\<in>set (take (length (particles pf1) - 160) (particles pf1)).
            item p \<noteq> - 1 \<and> canvas_item c2 (item p) = None))"
proof -
  obtain pf0 where i: "particle_field_init c0 pal g = Inr pf0" "palette pf0 = pal"
      "length (particles pf0) = 42" "boost_pending pf0 = 0" "count pf0 = 0"
      "\<forall>p\<in>set (particles pf0). item p = - 1 \<and> in_bounds p"
    using particle_field_init_ok[OF assms] by blast
  have "\<exists>c pf c1 pf1 c2 pf2.
        run_field evs (c0, pf0) = Inr (c, pf) \<and> length (particles pf) \<le> 160 \<and>
        step_advance c pf = Inr (c1, pf1) \<and> step c pf = Inr (c2, pf2) \<and>
        length (particles pf2) \<le> 160 \<and>
        particles pf1 = take (length (particles pf1) - 160) (particles pf1) @ particles pf2 \<and>
        (\<forall>p\<in>set (take (length (particles pf1) - 160) (particles pf1)).
            item p \<noteq> - 1 \<and> canvas_item c2 (item p) = None)" for evs
  proof -
    have "\<exists>c pf. run_field evs (c0, pf0) = Inr (c, pf) \<and> palette pf = palette pf0
           \<and> length (particles pf) \<le> 160 \<and> 0 \<le> boost_pending pf
           \<and> (\<forall>p\<in>set (particles pf). in_bounds p) \<and> count pf \<le> 168"
      using i assms by (intro run_field_invariant) simp_all
    then obtain c pf where r: "run_field evs (c0, pf0) = Inr (c, pf)" "palette pf = palette pf0"
        "length (particles pf) \<le> 160" by blast
    have "palette pf \<noteq> []" using r(2) i(2) assms by simp
    from step_ok[OF this, of c]
    obtain c1 pf1 c2 where s: "step_advance c pf = Inr (c1, pf1)"
        "step c pf = Inr (c2, pf1\<lparr>particles := drop (length (particles pf1) - 160) (particles pf1)\<rparr>)"
        "\<forall>p\<in>set (particles pf1). item p \<noteq> - 1 \<and> in_bounds p"
        "\<forall>p\<in>set (take (length (particles pf1) - 160) (particles pf1)).
                 canvas_item c2 (item p) = None" by blast
    let ?pf2 = "pf1\<lparr>particles := drop (length (particles pf1) - 160) (particles pf1)\<rparr>"
    have "length (particles ?pf2) \<le> 160" by simp
    moreover have "particles pf1 = take (length (particles pf1) - 160) (particles pf1) @ particles ?pf2"
      by simp
    moreover have "\<forall>p\<in>set (take (length (particles pf1) - 160) (particles pf1)).
            item p \<noteq> - 1 \<and> canvas_item c2 (item p) = None"
      using s(3,4) by (meson in_set_takeD)
    ultimately show ?thesis using r(1,3) s(1,2) by blast
  qed
  then show ?thesis using i(1) by blast
qed

theorem particle_pool_capped_witness:
  "particle_palette \<noteq> [] \<and>
   (\<exists>pf0 c pf c1 pf1 c2 pf2.
      particle_field_init (empty_canvas 800 190) particle_palette (sconst 0) = Inr pf0 \<and>
      run_field (Boost 200 # replicate 15 Step) (empty_canvas 800 190, pf0) = Inr (c, pf) \<and>
      length (particles pf) = 160 \<and>
      step_advance c pf = Inr (c1, pf1) \<and> step c pf = Inr (c2, pf2) \<and>
      length (particles pf1) = 168 \<and> length (particles pf2) = 160 \<and>
      particles pf1 = take 8 (particles pf1) @ particles pf2 \<and>
      (\<forall>p\<in>set (take 8 (particles pf1)). item p \<noteq> - 1 \<and> canvas_item c2 (item p) = None))"
proof -
  let ?c0 = "empty_canvas 800 190"
  have pal: "particle_palette \<noteq> []" by (simp add: particle_palette_def)
  obtain pf0 where i: "particle_field_init ?c0 particle_palette (sconst 0) = Inr pf0"
    and all: "\<forall>evs. \<exists>c pf c1 pf1 c2 pf2.
        run_field evs (?c0, pf0) = Inr (c, pf) \<and> length (particles pf) \<le> 160 \<and>
        step_advance c pf = Inr (c1, pf1) \<and> step c pf = Inr (c2, pf2) \<and>
        length (particles pf2) \<le> 160 \<and>
        particles pf1 = take (length (particles pf1) - 160) (particles pf1) @ particles pf2 \<and>
        (\<forall>p\<in>set (take (length (particles pf1) - 160) (particles pf1)).
            item p \<noteq> - 1 \<and> canvas_item c2 (item p) = None)"
    using particle_pool_capped[OF pal, of ?c0 "sconst 0"] by blast
  obtain c pf c1 pf1 c2 pf2 where
    r: "run_field (Boost 200 # replicate 15 Step) (?c0, pf0) = Inr (c, pf)"
    and s: "step_advance c pf = Inr (c1, pf1)" "step c pf = Inr (c2, pf2)"
      "length (particles pf2) \<le> 160"
      "particles pf1 = take (length (particles pf1) - 160) (particles pf1) @ particles pf2"
      "\<forall>p\<in>set (take (length (particles pf1) - 160) (particles pf1)).
            item p \<noteq> - 1 \<and> canvas_item c2 (item p) = None"
    using all by blast
  have i': "palette pf0 = particle_palette" "length (particles pf0) = 42" "boost_pending pf0 = 0"
    using particle_field_init_ok[OF pal, of ?c0 "sconst 0"] i by auto
  have b: "palette (boost 200 pf0) \<noteq> []" "length (particles (boost 200 pf0)) \<le> 160"
      "0 \<le> boost_pending (boost 200 pf0)"
    using i' pal by (simp_all add: boost_def)
  have st: "palette pf = palette (boost 200 pf0)" "boost_pending pf = 80" "length (particles pf) = 160"
    using run_steps_drain[OF b, of 15 ?c0] r i' by (auto simp add: boost_def)
  have "palette pf \<noteq> []" using st(1) b(1) by simp
  from step_advance_ok[OF this, of c] s(1) st(2,3)
  have l1: "length (particles pf1) = 168" by (auto simp add: drained_def)
  have l2: "length (particles pf2) = 160"
  proof -
    have "length (particles pf1) = length (take (length (particles pf1) - 160) (particles pf1)) + length (particles pf2)"
      by (metis s(4) length_append)
    then show ?thesis using l1 by simp
  qed
  show ?thesis using pal i r s l1 l2 st(3) by (intro conjI exI[of _ pf0] exI[of _ c] exI[of _ pf] exI[of _ c1] exI[of _ pf1] exI[of _ c2] exI[of _ pf2]) simp_all
qed

subsection \<open>The particle field: the boost drain\<close>

text \<open>
  C5. A field with no boost pending receives \<^verbatim>\<open>boost(a)\<close> with \<open>a \<ge> 0\<close>. After any number
  \<open>n\<close> of steps the boost still pending is \<open>max 0 (a - 8 n)\<close>, and the step that follows
  spawns exactly \<open>min 8\<close> of what is pending: the list grows by that many entries before
  the cap, never by more than 8, and the pending boost shrinks by as many. The first
  \<open>n\<close> steps together spawn \<open>min a (8 n)\<close> particles, which is \<open>a\<close> as soon as \<open>8 n \<ge> a\<close>;
  \<^verbatim>\<open>boost(24)\<close> drains as 8, 8, 8.
\<close>

theorem boost_drains_eight_per_step:
  assumes "palette pf \<noteq> []" "boost_pending pf = 0" "0 \<le> a"
  shows "\<exists>c' pf' c1 pf1.
           run_field (replicate n Step) (c, boost a pf) = Inr (c', pf')
         \<and> boost_pending pf' = max 0 (a - 8 * int n)
         \<and> step_advance c' pf' = Inr (c1, pf1)
         \<and> int (length (particles pf1)) = int (length (particles pf')) + min 8 (boost_pending pf')
         \<and> boost_pending pf1 = boost_pending pf' - min 8 (boost_pending pf')
         \<and> (\<Sum>k<n. min 8 (max 0 (a - 8 * int k))) = min a (8 * int n)"
proof -
  have b: "palette (boost a pf) \<noteq> []" "0 \<le> boost_pending (boost a pf)"
      "boost_pending (boost a pf) = a"
    using assms by (simp_all add: boost_def)
  obtain c' pf' where r: "run_field (replicate n Step) (c, boost a pf) = Inr (c', pf')"
      "palette pf' = palette (boost a pf)"
      "boost_pending pf' = max 0 (a - 8 * int n)"
    using run_steps_pending[OF b(1,2), of n c] b(3) by auto
  have "palette pf' \<noteq> []" using r(2) b(1) by simp
  from step_advance_ok[OF this, of c']
  obtain c1 pf1 where s: "step_advance c' pf' = Inr (c1, pf1)"
      "int (length (particles pf1)) = int (length (particles pf')) + drained pf'"
      "boost_pending pf1 = boost_pending pf' - drained pf'" by blast
  have "drained pf' = min 8 (boost_pending pf')"
    using r(3) by (simp add: drained_def)
  then show ?thesis using r(1,3) s drain_sum[OF assms(3), of n] by auto
qed

theorem boost_drains_eight_per_step_witness:
  "palette fast_field \<noteq> [] \<and> boost_pending fast_field = 0 \<and> (0::int) \<le> 24 \<and>
   (\<exists>c' pf' c1 pf1.
       run_field (replicate 2 Step) (empty_canvas 800 190, boost 24 fast_field) = Inr (c', pf')
     \<and> boost_pending pf' = 8
     \<and> step_advance c' pf' = Inr (c1, pf1)
     \<and> int (length (particles pf1)) = int (length (particles pf')) + 8
     \<and> boost_pending pf1 = 0
     \<and> (\<Sum>k<2. min 8 (max 0 (24 - 8 * int k))) = 16)"
proof -
  have h: "palette fast_field \<noteq> []" "boost_pending fast_field = 0" "(0::int) \<le> 24"
    by (simp_all add: fast_field_def particle_palette_def)
  show ?thesis
    using h boost_drains_eight_per_step[OF h, of 2 "empty_canvas 800 190"]
    by (auto simp add: numeral_2_eq_2)
qed

subsection \<open>The particle field: alpha and velocity stay within their bounds\<close>

text \<open>
  C6. From the constructed field, after any sequence of frames, boosts and canvas
  changes, every particle of the pool has its alpha in [0.18, 1.0], its \<open>vx\<close> in
  [-1.2, 1.2] and its \<open>vy\<close> in [-0.9, 0.9]. Moreover a single \<^verbatim>\<open>step\<close> establishes these
  bounds from any state of the field, whatever the particles were before.
\<close>

theorem particle_alpha_velocity_bounds:
  assumes "pal \<noteq> []"
  shows "(\<exists>pf0. particle_field_init c0 pal g = Inr pf0 \<and>
           (\<forall>evs. \<exists>c pf. run_field evs (c0, pf0) = Inr (c, pf) \<and>
              (\<forall>p\<in>set (particles pf).
                  0.18 \<le> alpha p \<and> alpha p \<le> 1.0 \<and> - 1.2 \<le> vx p \<and> vx p \<le> 1.2
                  \<and> - 0.9 \<le> vy p \<and> vy p \<le> 0.9)))
       \<and> (\<forall>c pf. palette pf = pal \<longrightarrow>
             (\<exists>c' pf'. step c pf = Inr (c', pf') \<and>
                (\<forall>p\<in>set (particles pf').
                    0.18 \<le> alpha p \<and> alpha p \<le> 1.0 \<and> - 1.2 \<le> vx p \<and> vx p \<le> 1.2
                    \<and> - 0.9 \<le> vy p \<and> vy p \<le> 0.9)))"
proof (intro conjI allI impI)
  obtain pf0 where i: "particle_field_init c0 pal g = Inr pf0" "palette pf0 = pal"
      "length (particles pf0) = 42" "boost_pending pf0 = 0" "count pf0 = 0"
      "\<forall>p\<in>set (particles pf0). item p = - 1 \<and> in_bounds p"
    using particle_field_init_ok[OF assms] by blast
  have "\<exists>c pf. run_field evs (c0, pf0) = Inr (c, pf) \<and>
              (\<forall>p\<in>set (particles pf).
                  0.18 \<le> alpha p \<and> alpha p \<le> 1.0 \<and> - 1.2 \<le> vx p \<and> vx p \<le> 1.2
                  \<and> - 0.9 \<le> vy p \<and> vy p \<le> 0.9)" for evs
  proof -
    have "\<exists>c pf. run_field evs (c0, pf0) = Inr (c, pf) \<and> palette pf = palette pf0
           \<and> length (particles pf) \<le> 160 \<and> 0 \<le> boost_pending pf
           \<and> (\<forall>p\<in>set (particles pf). in_bounds p) \<and> count pf \<le> 168"
      using i assms by (intro run_field_invariant) simp_all
    then show ?thesis unfolding in_bounds_def by blast
  qed
  then show "\<exists>pf0. particle_field_init c0 pal g = Inr pf0 \<and>
           (\<forall>evs. \<exists>c pf. run_field evs (c0, pf0) = Inr (c, pf) \<and>
              (\<forall>p\<in>set (particles pf).
                  0.18 \<le> alpha p \<and> alpha p \<le> 1.0 \<and> - 1.2 \<le> vx p \<and> vx p \<le> 1.2
                  \<and> - 0.9 \<le> vy p \<and> vy p \<le> 0.9))"
    using i(1) by blast
next
  fix c :: "oval canvas" and pf :: particle_field
  assume "palette pf = pal"
  then have "palette pf \<noteq> []" using assms by simp
  from step_ok[OF this, of c]
  obtain c2 pf1 where s:
      "step c pf = Inr (c2, pf1\<lparr>particles := drop (length (particles pf1) - 160) (particles pf1)\<rparr>)"
      "\<forall>p\<in>set (particles pf1). item p \<noteq> - 1 \<and> in_bounds p" by blast
  have "\<forall>p\<in>set (drop (length (particles pf1) - 160) (particles pf1)). in_bounds p"
    using s(2) by (meson in_set_dropD)
  then show "\<exists>c' pf'. step c pf = Inr (c', pf') \<and>
                (\<forall>p\<in>set (particles pf').
                    0.18 \<le> alpha p \<and> alpha p \<le> 1.0 \<and> - 1.2 \<le> vx p \<and> vx p \<le> 1.2
                    \<and> - 0.9 \<le> vy p \<and> vy p \<le> 0.9)"
    using s(1) unfolding in_bounds_def by simp
qed

theorem particle_alpha_velocity_bounds_witness:
  "particle_palette \<noteq> [] \<and> palette fast_field = particle_palette \<and>
   (\<exists>c' pf'. step (empty_canvas 800 190) fast_field = Inr (c', pf') \<and>
      alpha (hd (particles fast_field)) = 7 \<and> vx (hd (particles fast_field)) = 5 \<and>
      hd (particles pf') \<in> set (particles pf') \<and>
      alpha (hd (particles pf')) = 1 \<and> vx (hd (particles pf')) = - 1.08 \<and>
      (\<forall>p\<in>set (particles pf').
          0.18 \<le> alpha p \<and> alpha p \<le> 1.0 \<and> - 1.2 \<le> vx p \<and> vx p \<le> 1.2
          \<and> - 0.9 \<le> vy p \<and> vy p \<le> 0.9))"
proof -
  have pal: "particle_palette \<noteq> []" by (simp add: particle_palette_def)
  have f: "palette fast_field = particle_palette" by (simp add: fast_field_def)
  obtain c' pf' where s: "step (empty_canvas 800 190) fast_field = Inr (c', pf')"
      "\<forall>p\<in>set (particles pf').
          0.18 \<le> alpha p \<and> alpha p \<le> 1.0 \<and> - 1.2 \<le> vx p \<and> vx p \<le> 1.2
          \<and> - 0.9 \<le> vy p \<and> vy p \<le> 0.9"
    using particle_alpha_velocity_bounds[OF pal] f by blast
  have "particles pf' = [\<lparr>px = 800, py = 7, vx = - 1.08, vy = - 0.9, pr = 2, alpha = 1,
                         hue_idx = 0, item = 1\<rparr>]"
    using s(1) fast_field_step by auto
  then have "hd (particles pf') \<in> set (particles pf')" "alpha (hd (particles pf')) = 1"
      "vx (hd (particles pf')) = - 1.08" by simp_all
  moreover have "alpha (hd (particles fast_field)) = 7" "vx (hd (particles fast_field)) = 5"
    by (simp_all add: fast_field_def fast_particle_def)
  ultimately show ?thesis using pal f s by blast
qed

subsection \<open>The glow pulse: the cap of 8\<close>

text \<open>
  C4. A glow pulse is constructed and then lives through any sequence of frames, kicks
  and canvas changes. After it the list holds at most 8 rings. In the step that follows,
  the list as it stands before the cap is the dropped rings followed by the list the step
  leaves, which again holds at most 8: the rings dropped are the ones at the front, the
  oldest. Each of them had a visual, and that visual is no longer on the canvas.
\<close>

theorem glow_pool_capped:
  assumes "pal \<noteq> []"
  shows "\<exists>c gp c1 gp1 c2 gp2.
        run_glow evs (c0, glow_pulse_init pal g) = Inr (c, gp) \<and> length (pulses gp) \<le> 8 \<and>
        glow_advance c gp = Inr (c1, gp1) \<and> glow_step c gp = Inr (c2, gp2) \<and>
        length (pulses gp2) \<le> 8 \<and>
        pulses gp1 = take (length (pulses gp1) - 8) (pulses gp1) @ pulses gp2 \<and>
        (\<forall>p\<in>set (take (length (pulses gp1) - 8) (pulses gp1)).
            ring_item p \<noteq> - 1 \<and> canvas_item c2 (ring_item p) = None)"
proof -
  have "glow_palette (glow_pulse_init pal g) \<noteq> []" "length (pulses (glow_pulse_init pal g)) \<le> 8"
    using assms by (simp_all add: glow_pulse_init_facts)
  from run_glow_ok[OF this, of evs c0]
  obtain c gp where r: "run_glow evs (c0, glow_pulse_init pal g) = Inr (c, gp)"
      "glow_palette gp = glow_palette (glow_pulse_init pal g)" "length (pulses gp) \<le> 8"
    by blast
  have "glow_palette gp \<noteq> []" using r(2) assms by (simp add: glow_pulse_init_facts)
  from glow_step_ok[OF this, of c] show ?thesis using r(1,3) by blast
qed

theorem glow_pool_capped_witness:
  "pulse_palette \<noteq> [] \<and>
   (\<exists>c gp c1 gp1 c2 gp2.
      run_glow (replicate 8 Glow_step)
        (empty_canvas 800 190, glow_pulse_init pulse_palette (sconst 0)) = Inr (c, gp) \<and>
      length (pulses gp) = 8 \<and>
      glow_advance c gp = Inr (c1, gp1) \<and> glow_step c gp = Inr (c2, gp2) \<and>
      length (pulses gp1) = 9 \<and> length (pulses gp2) = 8 \<and>
      pulses gp1 = take 1 (pulses gp1) @ pulses gp2 \<and>
      (\<forall>p\<in>set (take 1 (pulses gp1)). ring_item p \<noteq> - 1 \<and> canvas_item c2 (ring_item p) = None))"
proof -
  let ?c0 = "empty_canvas 800 190" and ?gp0 = "glow_pulse_init pulse_palette (sconst 0)"
  have pal: "pulse_palette \<noteq> []" by (simp add: pulse_palette_def)
  obtain c gp c1 gp1 c2 gp2 where
    t: "run_glow (replicate 8 Glow_step) (?c0, ?gp0) = Inr (c, gp)"
      "glow_advance c gp = Inr (c1, gp1)" "glow_step c gp = Inr (c2, gp2)"
      "length (pulses gp2) \<le> 8"
      "pulses gp1 = take (length (pulses gp1) - 8) (pulses gp1) @ pulses gp2"
      "\<forall>p\<in>set (take (length (pulses gp1) - 8) (pulses gp1)).
            ring_item p \<noteq> - 1 \<and> canvas_item c2 (ring_item p) = None"
    using glow_pool_capped[OF pal, of "replicate 8 Glow_step" ?c0 "sconst 0"] by blast
  have i: "glow_rng ?gp0 = sconst 0" "kick_pending ?gp0 > 0" "glow_palette ?gp0 \<noteq> []"
      "length (pulses ?gp0) + 8 \<le> 8"
      "\<forall>p\<in>set (pulses ?gp0). life p > real 8 / 50 + 1 / 50"
      "(0::real) \<le> 1 / 50" "real 8 / 50 + 1 / 50 \<le> (3 / 5::real)"
    using pal by (simp_all add: glow_pulse_init_def kick_def)
  have g: "length (pulses gp) = 8" "glow_rng gp = sconst 0" "kick_pending gp > 0"
      "glow_palette gp \<noteq> []" "\<forall>p\<in>set (pulses gp). life p > 0.02 + 0"
      "(0::real) \<le> 0" "(0::real) \<le> 0.6"
    using run_glow_fire[OF i, of ?c0] t(1) i(3) glow_pulse_init_facts(2)[of pulse_palette "sconst 0"]
    by auto
  have l1: "length (pulses gp1) = 9"
    using glow_advance_fire[OF g(2,3,4,5,6,7), of c] t(2) g(1) by auto
  have l2: "length (pulses gp2) = 8"
  proof -
    have "length (pulses gp1) = length (take (length (pulses gp1) - 8) (pulses gp1)) + length (pulses gp2)"
      by (metis t(5) length_append)
    then show ?thesis using l1 by simp
  qed
  show ?thesis using pal t l1 l2 g(1)
    by (intro conjI exI[of _ c] exI[of _ gp] exI[of _ c1] exI[of _ gp1] exI[of _ c2] exI[of _ gp2]) simp_all
qed

subsection \<open>The glow pulse: what a spawned ring looks like\<close>

text \<open>
  C7, as amended. \<^verbatim>\<open>_spawn(w, h, strength)\<close> appends one ring. Its centre lies in the
  central region of the surface: \<open>cx\<close> in \<open>[0.22 w, 0.78 w)\<close> and \<open>cy\<close> in
  \<open>[0.28 h, 0.72 h)\<close>. Its initial radius is drawn from \<open>[6, 28)\<close> and is the same
  whatever the strength. Its growth rate is \<open>1.6 + 3.2 strength\<close> and its life
  \<open>0.65 + 0.8 strength\<close>: both increase with the strength, with a constant offset.
\<close>

theorem glow_spawn_ring:
  assumes "1 \<le> w" "1 \<le> h"
  shows "\<exists>p. pulses (glow_spawn w h strength gp) = pulses gp @ [p]
    \<and> 0.22 * real_of_int w \<le> cx p \<and> cx p < 0.78 * real_of_int w
    \<and> 0.28 * real_of_int h \<le> cy p \<and> cy p < 0.72 * real_of_int h
    \<and> 6 \<le> ring_r p \<and> ring_r p < 28
    \<and> ring_r p = ring_r (last (pulses (glow_spawn w h strength' gp)))
    \<and> vr p = 1.6 + strength * 3.2
    \<and> life p = 0.65 + strength * 0.8"
proof -
  define u1 where "u1 = fst (rng_random (glow_rng gp))"
  define g1 where "g1 = snd (rng_random (glow_rng gp))"
  define u2 where "u2 = fst (rng_random g1)"
  define u3 where "u3 = fst (rng_random (snd (rng_random g1)))"
  have r: "0 \<le> u1 \<and> u1 < 1" "0 \<le> u2 \<and> u2 < 1" "0 \<le> u3 \<and> u3 < 1"
    unfolding u1_def u2_def u3_def by (rule rng_random_range)+
  let ?p = "\<lambda>s. \<lparr>cx = real_of_int w * (0.22 + u1 * 0.56),
               cy = real_of_int h * (0.28 + u2 * 0.44),
               ring_r = 6 + u3 * 22,
               vr = 1.6 + s * 3.2,
               life = 0.65 + s * 0.8,
               ring_item = - 1\<rparr>"
  have sp: "pulses (glow_spawn w h s gp) = pulses gp @ [?p s]" for s
    by (simp add: glow_spawn_def Let_def split_beta u1_def u2_def u3_def g1_def)
  have w: "0 < real_of_int w" and h: "0 < real_of_int h" using assms by simp_all
  have "real_of_int w * 0.22 \<le> real_of_int w * (0.22 + u1 * 0.56)"
    using r(1) w by (intro mult_left_mono) simp_all
  moreover have "real_of_int w * (0.22 + u1 * 0.56) < real_of_int w * 0.78"
    using r(1) w by (intro mult_strict_left_mono) simp_all
  moreover have "real_of_int h * 0.28 \<le> real_of_int h * (0.28 + u2 * 0.44)"
    using r(2) h by (intro mult_left_mono) simp_all
  moreover have "real_of_int h * (0.28 + u2 * 0.44) < real_of_int h * 0.72"
    using r(2) h by (intro mult_strict_left_mono) simp_all
  moreover have "6 \<le> 6 + u3 * 22" "6 + u3 * 22 < 28" using r(3) by simp_all
  ultimately show ?thesis
    by (intro exI[of _ "?p strength"]) (simp add: sp mult.commute)
qed

theorem glow_spawn_ring_witness:
  "(1::int) \<le> 800 \<and> (1::int) \<le> 190 \<and>
   (\<exists>p. pulses (glow_spawn 800 190 0.35 (glow_pulse_init pulse_palette (sconst 0))) = [p]
    \<and> 0.22 * 800 \<le> cx p \<and> cx p < 0.78 * 800
    \<and> 0.28 * 190 \<le> cy p \<and> cy p < 0.72 * 190
    \<and> 6 \<le> ring_r p \<and> ring_r p < 28
    \<and> ring_r p = ring_r (last (pulses (glow_spawn 800 190 0.7 (glow_pulse_init pulse_palette (sconst 0)))))
    \<and> vr p = 1.6 + 0.35 * 3.2
    \<and> life p = 0.65 + 0.35 * 0.8)"
  using glow_spawn_ring[of 800 190 "0.35" "glow_pulse_init pulse_palette (sconst 0)" "0.7"]
  by (simp add: glow_pulse_init_facts)

text \<open>
  C7 as stated says that the initial radius and the growth rate are proportional to the
  strength. Doubling the strength from 1 to 2 doubles neither of them.
\<close>

theorem glow_spawn_radius_not_proportional:
  "ring_r (last (pulses (glow_spawn 800 190 2 (glow_pulse_init pulse_palette (sconst 0)))))
     \<noteq> 2 * ring_r (last (pulses (glow_spawn 800 190 1 (glow_pulse_init pulse_palette (sconst 0)))))
   \<and> vr (last (pulses (glow_spawn 800 190 2 (glow_pulse_init pulse_palette (sconst 0)))))
     \<noteq> 2 * vr (last (pulses (glow_spawn 800 190 1 (glow_pulse_init pulse_palette (sconst 0)))))"
  by (simp add: glow_spawn_def glow_pulse_init_def kick_def rng_random_def)

subsection \<open>Run Demo\<close>



subsection \<open>The stats-refresh timer\<close>

text \<open>
  C9, as amended. \<^verbatim>\<open>_schedule_ticks\<close> registers the stats callback with a delay of 250 ms
  and remembers the timer; each run of the callback recomputes the four stat cards
  (uptime, runs, particle count, bytes) and registers itself again with a delay of 250 ms.
\<close>

theorem stats_timer_delay:
  "(\<exists>j. tick_job (schedule_ticks a) = Some j
        \<and> (j, 250, Tick) \<in> set (pending (tk (schedule_ticks a))))
   \<and> (\<exists>j. tick_job (tick now a) = Some j
        \<and> (j, 250, Tick) \<in> set (pending (tk (tick now a)))
        \<and> card_uptime (tick now a) = Uptime_text (now - start_time (state a))
        \<and> card_runs (tick now a) = Int_text (runs (state a))
        \<and> card_particles (tick now a) = Int_text (count (field a))
        \<and> card_bytes (tick now a) = Bytes_text (bytes_processed (state a)))"
proof -
  let ?tm = "case tick_job a of None \<Rightarrow> tk a | Some j \<Rightarrow> tk_after_cancel j (tk a)"
  have registered: "tick_job (schedule_ticks a) = Some (Suc (issued ?tm))"
      "pending (tk (schedule_ticks a)) = pending ?tm @ [(Suc (issued ?tm), 250, Tick)]"
    by (simp_all add: schedule_ticks_def tk_after_def Let_def)
  have again: "tick_job (tick now a) = Some (Suc (issued (tk a)))"
      "pending (tk (tick now a)) = pending (tk a) @ [(Suc (issued (tk a)), 250, Tick)]"
    by (simp_all add: tick_def tk_after_def sync_stats_def Let_def)
  have cards: "card_uptime (tick now a) = Uptime_text (now - start_time (state a))"
      "card_runs (tick now a) = Int_text (runs (state a))"
      "card_particles (tick now a) = Int_text (count (field a))"
      "card_bytes (tick now a) = Bytes_text (bytes_processed (state a))"
    by (simp_all add: tick_def tk_after_def sync_stats_def Let_def)
  show ?thesis using registered again cards by simp
qed

text \<open>
  C9 as stated gives the cadence as 62.5 ms. In the application as constructed, the only
  pending timer of the stats callback has a delay of 250 ms.
\<close>

theorem stats_timer_not_62_5:
  "map_sum id tick_delays
     (app_init 0 (empty_canvas 800 190) particle_palette pulse_palette (sconst 0) (sconst 0))
     = Inr [250]
   \<and> real_of_int 250 \<noteq> 62.5"
proof -
  have "particle_palette \<noteq> []" by (simp add: particle_palette_def)
  from app_init_ok[OF this, of 0 "empty_canvas 800 190" pulse_palette "sconst 0" "sconst 0"]
  show ?thesis by (auto simp add: tick_delays_def)
qed

subsection \<open>The particle count shown\<close>

text \<open>
  C10. From the constructed field, after any sequence of frames, boosts and canvas
  changes, the next step sets \<open>count\<close> to the length the list has before the cap, which
  is at most 168, while the list it leaves has at most 160 entries; the stats display
  shows this \<open>count\<close>. The value 168 is reached: after \<^verbatim>\<open>boost(200)\<close> and sixteen steps
  \<open>count\<close> is 168 and the list holds 160 particles.
\<close>

theorem count_is_length_before_cap:
  assumes "pal \<noteq> []"
  shows "\<exists>pf0. particle_field_init c0 pal g = Inr pf0 \<and>
     (\<forall>evs. \<exists>c pf c1 pf1 c2 pf2.
        run_field evs (c0, pf0) = Inr (c, pf) \<and>
        step_advance c pf = Inr (c1, pf1) \<and> step c pf = Inr (c2, pf2) \<and>
        count pf2 = int (length (particles pf1)) \<and>
        count pf2 \<le> 168 \<and> length (particles pf2) \<le> 160 \<and>
        (\<forall>now a. card_particles (sync_stats now (a\<lparr>field := pf2\<rparr>)) = Int_text (count pf2))) \<and>
     (\<exists>c pf. run_field (Boost 200 # replicate 16 Step) (c0, pf0) = Inr (c, pf) \<and>
        count pf = 168 \<and> length (particles pf) = 160)"
proof -
  obtain pf0 where i: "particle_field_init c0 pal g = Inr pf0" "palette pf0 = pal"
      "length (particles pf0) = 42" "boost_pending pf0 = 0" "count pf0 = 0"
      "\<forall>p\<in>set (particles pf0). item p = - 1 \<and> in_bounds p"
    using particle_field_init_ok[OF assms] by blast
  have every: "\<exists>c pf c1 pf1 c2 pf2.
        run_field evs (c0, pf0) = Inr (c, pf) \<and>
        step_advance c pf = Inr (c1, pf1) \<and> step c pf = Inr (c2, pf2) \<and>
        count pf2 = int (length (particles pf1)) \<and>
        count pf2 \<le> 168 \<and> length (particles pf2) \<le> 160 \<and>
        (\<forall>now a. card_particles (sync_stats now (a\<lparr>field := pf2\<rparr>)) = Int_text (count pf2))"
    for evs
  proof -
    have "\<exists>c pf. run_field evs (c0, pf0) = Inr (c, pf) \<and> palette pf = palette pf0
           \<and> length (particles pf) \<le> 160 \<and> 0 \<le> boost_pending pf
           \<and> (\<forall>p\<in>set (particles pf). in_bounds p) \<and> count pf \<le> 168"
      using i assms by (intro run_field_invariant) simp_all
    then obtain c pf where r: "run_field evs (c0, pf0) = Inr (c, pf)" "palette pf = palette pf0"
        "length (particles pf) \<le> 160" by blast
    have "palette pf \<noteq> []" using r(2) i(2) assms by simp
    from step_ok[OF this, of c]
    obtain c1 pf1 c2 where s: "step_advance c pf = Inr (c1, pf1)"
        "step c pf = Inr (c2, pf1\<lparr>particles := drop (length (particles pf1) - 160) (particles pf1)\<rparr>)"
        "int (length (particles pf1)) = int (length (particles pf)) + drained pf"
        "count pf1 = int (length (particles pf1))" by blast
    let ?pf2 = "pf1\<lparr>particles := drop (length (particles pf1) - 160) (particles pf1)\<rparr>"
    have "drained pf \<le> 8" by (simp add: drained_def)
    then have "count ?pf2 \<le> 168" using s(3,4) r(3) by simp
    moreover have "count ?pf2 = int (length (particles pf1))" using s(4) by simp
    moreover have "length (particles ?pf2) \<le> 160" by simp
    moreover have "\<forall>now a. card_particles (sync_stats now (a\<lparr>field := ?pf2\<rparr>)) = Int_text (count ?pf2)"
      by (simp add: sync_stats_def)
    ultimately show ?thesis using r(1) s(1,2) by blast
  qed
  have reach: "\<exists>c pf. run_field (Boost 200 # replicate 16 Step) (c0, pf0) = Inr (c, pf) \<and>
        count pf = 168 \<and> length (particles pf) = 160"
  proof -
    have b: "palette (boost 200 pf0) \<noteq> []" "length (particles (boost 200 pf0)) \<le> 160"
        "0 \<le> boost_pending (boost 200 pf0)"
      using i assms by (simp_all add: boost_def)
    obtain c pf where r: "run_field (replicate 15 Step) (c0, boost 200 pf0) = Inr (c, pf)"
        "palette pf = palette (boost 200 pf0)" "boost_pending pf = 80"
        "length (particles pf) = 160"
      using run_steps_drain[OF b, of 15 c0] i by (auto simp add: boost_def)
    have p: "palette pf \<noteq> []" "length (particles pf) \<le> 160" "0 \<le> boost_pending pf"
      using r b(1) by simp_all
    obtain c' pf' where s: "step c pf = Inr (c', pf')"
        "int (length (particles pf')) = min 160 (int (length (particles pf)) + drained pf)"
        "count pf' = int (length (particles pf)) + drained pf"
      using step_invariant[OF p, of c] by blast
    have d: "drained pf = 8" using r(3) by (simp add: drained_def)
    have "replicate 16 Step = replicate 15 Step @ [Step]"
      by (simp add: numeral_eq_Suc replicate_append_same)
    then have "run_field (Boost 200 # replicate 16 Step) (c0, pf0) = Inr (c', pf')"
      using r(1) s(1) by (simp add: run_field_append)
    moreover have "count pf' = 168" "length (particles pf') = 160"
      using s(2,3) d r(4) by simp_all
    ultimately show ?thesis by blast
  qed
  show ?thesis using i(1) every reach by blast
qed

theorem count_is_length_before_cap_witness:
  "particle_palette \<noteq> [] \<and>
   (\<exists>pf0 c pf. particle_field_init (empty_canvas 800 190) particle_palette (sconst 0) = Inr pf0 \<and>
      run_field (Boost 200 # replicate 16 Step) (empty_canvas 800 190, pf0) = Inr (c, pf) \<and>
      count pf = 168 \<and> length (particles pf) = 160)"
proof -
  have pal: "particle_palette \<noteq> []" by (simp add: particle_palette_def)
  show ?thesis
    using pal count_is_length_before_cap[OF pal, of "empty_canvas 800 190" "sconst 0"]
    by blast
qed
subsection \<open>The credits overlay: the author line is revealed after the delay and stays\<close>




subsection \<open>The credits overlay: closing\<close>

text \<open>
  C2. On a running overlay \<^verbatim>\<open>close()\<close> returns and has called the close callback exactly
  once, whichever of the timer cancel, the grab release and the window destroy raised,
  provided the callback itself returns. The overlay is then no longer running, and a
  further \<^verbatim>\<open>close()\<close> returns with the overlay unchanged, so without calling the
  callback, whatever would raise. On an overlay that is not running \<^verbatim>\<open>close()\<close> returns
  with the overlay unchanged.
\<close>

theorem close_calls_back_once:
  "(running ov \<and> callback_raises f = None \<longrightarrow>
      (\<exists>ov'. overlay_close f ov = Inr ov'
         \<and> close_callbacks ov' = Suc (close_callbacks ov) \<and> \<not> running ov'
         \<and> (\<forall>f'. overlay_close f' ov' = Inr ov')))
   \<and> (\<not> running ov \<longrightarrow> overlay_close f ov = Inr ov)"
proof (intro conjI impI)
  assume a: "running ov \<and> callback_raises f = None"
  let ?ov1 = "ov\<lparr>running := False\<rparr>"
  let ?ov2 = "try_pass (cancel_job f) ?ov1"
  let ?ov3 = "try_pass (grab_release f) ?ov2"
  let ?ov4 = "try_pass (destroy f) ?ov3"
  have r2: "running ?ov2 = False \<and> close_callbacks ?ov2 = close_callbacks ov"
    by (simp add: try_pass_def cancel_job_def split: option.split)
  have r3: "running ?ov3 = False \<and> close_callbacks ?ov3 = close_callbacks ov"
    using r2 by (simp add: try_pass_def grab_release_def split: option.split)
  have r4: "running ?ov4 = False \<and> close_callbacks ?ov4 = close_callbacks ov"
    using r3 by (simp add: try_pass_def destroy_def split: option.split)
  let ?ov' = "?ov4\<lparr>close_callbacks := Suc (close_callbacks ?ov4)\<rparr>"
  have "overlay_close f ov = Inr ?ov'"
    using a by (simp add: overlay_close_def on_close_cb_def Let_def)
  moreover have "close_callbacks ?ov' = Suc (close_callbacks ov)" using r4 by simp
  moreover have nr: "\<not> running ?ov'" using r4 by simp
  moreover have "\<forall>f'. overlay_close f' ?ov' = Inr ?ov'"
    using nr by (simp add: overlay_close_def)
  ultimately show "\<exists>ov'. overlay_close f ov = Inr ov'
         \<and> close_callbacks ov' = Suc (close_callbacks ov) \<and> \<not> running ov'
         \<and> (\<forall>f'. overlay_close f' ov' = Inr ov')"
    by blast
next
  assume "\<not> running ov"
  then show "overlay_close f ov = Inr ov" by (simp add: overlay_close_def)
qed

theorem close_calls_back_once_witness:
  "\<exists>ov ov'. session 100 demo_frames demo_overlay = Inr ov
     \<and> running ov \<and> callback_raises all_teardown_fails = None \<and> close_callbacks ov = 0
     \<and> overlay_close all_teardown_fails ov = Inr ov'
     \<and> close_callbacks ov' = 1 \<and> \<not> running ov'
     \<and> overlay_close all_teardown_fails ov' = Inr ov'
     \<and> overlay_close all_teardown_fails demo_overlay = Inr demo_overlay"
proof -
  have "demo_frames \<noteq> []" by (simp add: demo_frames_def)
  from session_ok[OF theme_colors_parse alex_dubois_line this,
        of 100 "ascii ''neuraforge''" 50 1120 680 "\<lparr>pending = [], issued = 0\<rparr>"]
  obtain ov x where s: "session 100 demo_frames demo_overlay = Inr ov" "scene_inv ov x"
      "close_callbacks ov = 0"
    by (auto simp add: demo_overlay_def)
  have r: "running ov" using s(2) by (simp add: scene_inv_def)
  have c: "callback_raises all_teardown_fails = None" by (simp add: all_teardown_fails_def)
  have n: "\<not> running demo_overlay" by (simp add: demo_overlay_def credits_overlay_init_def)
  obtain ov' where o: "overlay_close all_teardown_fails ov = Inr ov'"
      "close_callbacks ov' = Suc (close_callbacks ov)" "\<not> running ov'"
      "\<forall>f'. overlay_close f' ov' = Inr ov'"
    using close_calls_back_once[of ov all_teardown_fails] r c by blast
  have "overlay_close all_teardown_fails demo_overlay = Inr demo_overlay"
    using close_calls_back_once[of demo_overlay all_teardown_fails] n by blast
  then show ?thesis using s(1,3) r c o by (intro exI[of _ ov] exI[of _ ov']) simp
qed

end
